theory Spec2Isabelle
  imports Complex_Main "HOL-Library.Sublist"
begin

section \<open>The export loop of \<open>Export.accept\<close> and the progress bar update\<close>

text \<open>
  The development embeds the part of \<open>src/export.py\<close> that drives an export:
  the frame range check at the head of \<open>Export.accept\<close>, the frame loop with its
  throttled progress events, the code after the loop, the \<open>except\<close> handler, the
  unconditional clean-up after the \<open>try\<close> statement, and \<open>Export.updateProgressBar\<close>.

  Python's floats are idealised as reals, Python's unbounded integers are \<open>int\<close>.
  Everything the method does to its collaborators (the writer, the timeline, the
  signals, the log, the message box) is recorded, in order, as a list of events.
  What the collaborators answer is read from an environment: the readings of
  \<open>time.time()\<close>, the message of the exception a \<open>WriteFrame\<close> call raises (if any),
  and the value of \<open>self.exporting\<close> at each read inside the loop.
\<close>

subsection \<open>Data\<close>

text \<open>The five branches of the \<open>if\<close>/\<open>elif\<close> chain of the handler, by their marker.\<close>

datatype failure_kind =
  InvalidChannels | InvalidSampleRate | InvalidFormat | InvalidCodec | ErrorEncodingVideo

text \<open>
  The window title: the empty string \<open>title_message = ""\<close>, the finalizing
  message, or \<open>titlestring(sec, fps, mess)\<close>, kept symbolic.
\<close>

datatype title = Blank | Finalizing | TitleString int real string

text \<open>
  The fourth argument of \<open>ExportFrame\<close> is the frame, the fifth the number of
  digits \<open>d\<close> of the format string \<open>"%4." + str(d) + "f%% "\<close>.
\<close>

datatype event =
    InvalidRangeDialog
  | WriterOpen
  | ExportStarted int int
  | ExportFrame title int int int int
  | ProcessEvents
  | WriteFrame int
  | ReadExporting int bool
  | WriterClose
  | LogInfo string
  | TrackMetricError failure_kind
  | ErrorDialog string
  | ExportEnded
  | TimelineClose
  | ClearAllCache

record env =
  time_time :: "nat \<Rightarrow> real"
  writer_setup :: "string option"
  write_frame :: "int \<Rightarrow> string option"
  exporting_read :: "int \<Rightarrow> bool"

text \<open>
  The local variables of \<open>accept\<close> that the loop changes. \<open>end_time_export\<close> is
  bound only inside the loop body, so it is optional; \<open>clock_calls\<close> counts the
  calls of \<open>time.time()\<close> made so far.
\<close>

record loop_state =
  clock_calls :: nat
  end_time_export :: "real option"
  last_exported_time :: real
  last_displayed_exported_portion :: real
  format_digits :: int
  title_message :: title
  fps_encode :: real
  max_frame :: int

datatype flow = Continue | Break | Raise string

subsection \<open>Arithmetic of the source\<close>

text \<open>Python's \<open>round\<close> of a float: to the nearest integer, ties to the even one.\<close>

definition py_round :: "real \<Rightarrow> int" where
  "py_round x =
     (let f = \<lfloor>x\<rfloor>; d = x - of_int f
      in if d < 1 / 2 then f
         else if 1 / 2 < d then f + 1
         else if even f then f else f + 1)"

text \<open>Python's \<open>/\<close>: a zero divisor raises \<open>ZeroDivisionError\<close>.\<close>

definition py_truediv :: "real \<Rightarrow> real \<Rightarrow> string + real" where
  "py_truediv a b = (if b = 0 then Inl ''float division by zero'' else Inr (a / b))"

definition progressstep :: "int \<Rightarrow> int \<Rightarrow> int" where
  "progressstep start_frame end_frame =
     max 1 (py_round (of_int (end_frame - start_frame) / 1000))"

text \<open>
  Lines 1040 to 1051: the number of digits after the decimal point, from the
  progress made since the last displayed sample.
\<close>

definition digits_after_decimalpoint :: "real \<Rightarrow> int" where
  "digits_after_decimalpoint delta =
     (let d0 = (if 0 < delta then \<lceil>- 2 - log 10 delta\<rceil> else 1);
          d1 = (if d0 < 1 then 1 else d0)
      in if 5 < d1 then 5 else d1)"

text \<open>Line 1056, guarded by line 1055; \<open>t\<close> is \<open>end_time_export\<close>.\<close>

definition seconds_left :: "real \<Rightarrow> real \<Rightarrow> int \<Rightarrow> int \<Rightarrow> int \<Rightarrow> int" where
  "seconds_left start_time_export t frame start_frame_export end_frame_export =
     py_round ((start_time_export - t) * of_int (frame - end_frame_export)
               / of_int (frame - start_frame_export))"

text \<open>
  The estimate as the specification words it: elapsed time times the frames that
  remain, over the frames done.
\<close>

definition seconds_remaining_spec :: "real \<Rightarrow> real \<Rightarrow> int \<Rightarrow> int \<Rightarrow> int \<Rightarrow> int" where
  "seconds_remaining_spec start_time now current_frame start_frame end_frame =
     (let elapsed = now - start_time;
          frames_remaining = end_frame - current_frame;
          frames_done = current_frame - start_frame
      in py_round (elapsed * of_int frames_remaining / of_int frames_done))"

subsection \<open>The frame loop\<close>

text \<open>
  The body of \<open>if ((frame % progressstep) == 0) or (...)\<close>: lines 1039 to 1073.
  \<open>t\<close> is the value of \<open>end_time_export\<close> read at the head of the iteration.
\<close>

definition display_tick ::
  "env \<Rightarrow> int \<Rightarrow> int \<Rightarrow> real \<Rightarrow> int \<Rightarrow> real \<Rightarrow> loop_state \<Rightarrow> event list \<times> loop_state \<times> flow" where
  "display_tick e start_frame_export end_frame_export start_time_export frame t s =
     (case py_truediv (of_int (frame - start_frame_export))
                      (of_int (end_frame_export - start_frame_export)) of
        Inl msg \<Rightarrow> ([], s, Raise msg)
      | Inr current_exported_portion \<Rightarrow>
          let d = digits_after_decimalpoint
                    (current_exported_portion - last_displayed_exported_portion s);
              s1 = s\<lparr>last_displayed_exported_portion := current_exported_portion,
                     format_digits := d,
                     last_exported_time := time_time e (clock_calls s),
                     clock_calls := Suc (clock_calls s)\<rparr>;
              s2 = (if frame - start_frame_export \<noteq> 0 \<and> t - start_time_export \<noteq> 0
                    then
                      let sl = seconds_left start_time_export t frame
                                 start_frame_export end_frame_export;
                          fps = of_int (frame - start_frame_export) / (t - start_time_export)
                      in s1\<lparr>fps_encode := fps,
                            title_message :=
                              (if frame = end_frame_export then Finalizing
                               else TitleString sl fps ''Remaining'')\<rparr>
                    else s1)
          in ([ExportFrame (title_message s2) start_frame_export end_frame_export frame
                 (format_digits s2),
               ProcessEvents], s2, Continue))"

text \<open>
  Lines 1037 to 1073: the clock is read, and the progress is displayed when the
  frame is a multiple of the step or more than a second has passed.
\<close>

definition progress_update ::
  "env \<Rightarrow> int \<Rightarrow> int \<Rightarrow> int \<Rightarrow> real \<Rightarrow> int \<Rightarrow> loop_state \<Rightarrow> event list \<times> loop_state \<times> flow" where
  "progress_update e start_frame_export end_frame_export step start_time_export frame s =
     (let t = time_time e (clock_calls s);
          s0 = s\<lparr>clock_calls := Suc (clock_calls s), end_time_export := Some t\<rparr>
      in if frame mod step = 0 \<or> 1 < t - last_exported_time s0
         then display_tick e start_frame_export end_frame_export start_time_export frame t s0
         else ([], s0, Continue))"

text \<open>
  Lines 1075 to 1083: the frame is recorded as the largest one processed, written,
  and only then is \<open>self.exporting\<close> read.
\<close>

definition write_and_check :: "env \<Rightarrow> int \<Rightarrow> loop_state \<Rightarrow> event list \<times> loop_state \<times> flow" where
  "write_and_check e frame s =
     (let s2 = s\<lparr>max_frame := frame\<rparr>
      in case write_frame e frame of
           Some msg \<Rightarrow> ([WriteFrame frame], s2, Raise msg)
         | None \<Rightarrow>
             (let b = exporting_read e frame
              in ([WriteFrame frame, ReadExporting frame b], s2,
                  if b then Continue else Break)))"

text \<open>One iteration of the loop.\<close>

definition loop_body ::
  "env \<Rightarrow> int \<Rightarrow> int \<Rightarrow> int \<Rightarrow> real \<Rightarrow> int \<Rightarrow> loop_state \<Rightarrow> event list \<times> loop_state \<times> flow" where
  "loop_body e start_frame_export end_frame_export step start_time_export frame s =
     (case progress_update e start_frame_export end_frame_export step start_time_export
             frame s of
        (evs, s1, Raise msg) \<Rightarrow> (evs, s1, Raise msg)
      | (evs, s1, _) \<Rightarrow>
          (case write_and_check e frame s1 of
             (evs2, s2, fl) \<Rightarrow> (evs @ evs2, s2, fl)))"

text \<open>The \<open>for\<close> statement over \<open>range(start_frame, end_frame + 1)\<close>.\<close>

fun frames_loop ::
  "env \<Rightarrow> int \<Rightarrow> int \<Rightarrow> int \<Rightarrow> real \<Rightarrow> int list \<Rightarrow> loop_state \<Rightarrow> event list \<times> loop_state \<times> flow" where
  "frames_loop e sf ef step st [] s = ([], s, Continue)"
| "frames_loop e sf ef step st (frame # rest) s =
     (case loop_body e sf ef step st frame s of
        (evs, s1, Continue) \<Rightarrow>
          (case frames_loop e sf ef step st rest s1 of
             (evs2, s2, fl) \<Rightarrow> (evs @ evs2, s2, fl))
      | (evs, s1, fl) \<Rightarrow> (evs, s1, fl))"

subsection \<open>The exception handler\<close>

text \<open>Lines 1103 to 1125: the first marker found in \<open>str(e)\<close> decides.\<close>

definition classify :: "string \<Rightarrow> failure_kind option" where
  "classify error_type_str =
     (if sublist ''InvalidChannels'' error_type_str then Some InvalidChannels
      else if sublist ''InvalidSampleRate'' error_type_str then Some InvalidSampleRate
      else if sublist ''InvalidFormat'' error_type_str then Some InvalidFormat
      else if sublist ''InvalidCodec'' error_type_str then Some InvalidCodec
      else if sublist ''ErrorEncodingVideo'' error_type_str then Some ErrorEncodingVideo
      else None)"

text \<open>\<open>s.split(sep)[0]\<close> for a non-empty separator: the part before its first occurrence.\<close>

fun split_first :: "string \<Rightarrow> string \<Rightarrow> string" where
  "split_first sep [] = []"
| "split_first sep (c # cs) = (if prefix sep (c # cs) then [] else c # split_first sep cs)"

definition friendly_error :: "string \<Rightarrow> string" where
  "friendly_error error_type_str =
     filter (\<lambda>c. c \<noteq> CHR ''<'') (split_first ''> '' error_type_str)"

definition exception_handler :: "string \<Rightarrow> event list" where
  "exception_handler error_type_str =
     LogInfo error_type_str #
     (case classify error_type_str of
        Some k \<Rightarrow> [TrackMetricError k]
      | None \<Rightarrow> []) @
     [ErrorDialog (friendly_error error_type_str)]"

subsection \<open>\<open>Export.accept\<close>\<close>

definition initial_state :: "env \<Rightarrow> loop_state" where
  "initial_state e =
     \<lparr>clock_calls = 2, end_time_export = None, last_exported_time = time_time e 1,
      last_displayed_exported_portion = 0, format_digits = 1, title_message = Blank,
      fps_encode = 0, max_frame = 0\<rparr>"

text \<open>
  The message of the \<open>UnboundLocalError\<close> raised when \<open>end_time_export\<close> is read
  after a loop that never ran (the wording of Python up to 3.10).
\<close>

definition unbound_end_time :: string where
  "unbound_end_time =
     ''local variable '' @ [CHR 0x27] @ ''end_time_export'' @ [CHR 0x27] @
     '' referenced before assignment''"

text \<open>
  The \<open>try\<close> statement from the creation of the writer on. The dialogs about the
  file name that precede it are not modelled: the runs described are those that
  pass them. Setting up and opening the writer either raises (\<open>writer_setup\<close>) or
  is recorded as \<open>WriterOpen\<close>.
\<close>

definition try_block :: "env \<Rightarrow> int \<Rightarrow> int \<Rightarrow> event list" where
  "try_block e start_frame end_frame =
     (case writer_setup e of
        Some msg \<Rightarrow> exception_handler msg
      | None \<Rightarrow>
          (let step = progressstep start_frame end_frame;
               start_time_export = time_time e 0
           in case frames_loop e start_frame end_frame step start_time_export
                     [start_frame..end_frame] (initial_state e) of
                (evs, s, fl) \<Rightarrow>
                  [WriterOpen, ExportStarted start_frame end_frame] @ evs @
                  (case fl of
                     Raise msg \<Rightarrow> exception_handler msg
                   | _ \<Rightarrow>
                       WriterClose #
                       (case end_time_export s of
                          None \<Rightarrow> exception_handler unbound_end_time
                        | Some t \<Rightarrow>
                            [ExportFrame
                               (TitleString (py_round (t - start_time_export))
                                  (fps_encode s) ''Elapsed'')
                               start_frame end_frame (max_frame s) (format_digits s)]))))"

definition accept :: "env \<Rightarrow> int \<Rightarrow> int \<Rightarrow> event list" where
  "accept e start_frame end_frame =
     (if start_frame = end_frame then [InvalidRangeDialog]
      else try_block e start_frame end_frame @ [ExportEnded, TimelineClose, ClearAllCache])"

subsection \<open>\<open>Export.updateProgressBar\<close>\<close>

text \<open>
  The percentage string: either the format applied to a number, kept symbolic
  (digits and value), or the literal \<open>"100%"\<close>.
\<close>

datatype percentage = Formatted int real | Literal string

definition updateProgressBar :: "int \<Rightarrow> int \<Rightarrow> int \<Rightarrow> int \<Rightarrow> string + percentage" where
  "updateProgressBar digits start_frame end_frame current_frame =
     (if 0 < end_frame - start_frame
      then (case py_truediv (of_int (current_frame - start_frame))
                            (of_int (end_frame - start_frame)) of
              Inl msg \<Rightarrow> Inl msg
            | Inr q \<Rightarrow> Inr (Formatted digits (q * 100)))
      else Inr (Literal ''100%''))"

subsection \<open>Observations on a run\<close>

definition writes :: "event list \<Rightarrow> int list" where
  "writes tr = [f. WriteFrame f \<leftarrow> tr]"

definition frames_written :: "event list \<Rightarrow> nat" where
  "frames_written tr = length (writes tr)"

definition progress_frames :: "event list \<Rightarrow> int list" where
  "progress_frames tr = [f. ExportFrame ttl a b f d \<leftarrow> tr]"

definition closes :: "event list \<Rightarrow> nat" where
  "closes tr = length (filter (\<lambda>ev. ev = WriterClose) tr)"

text \<open>A frame after which the loop goes on: its write returns and the export is still on.\<close>

definition proceeds :: "env \<Rightarrow> int \<Rightarrow> bool" where
  "proceeds e f = (write_frame e f = None \<and> exporting_read e f)"

text \<open>The titles set inside the loop, and the title of the event after it.\<close>

fun in_loop_title :: "title \<Rightarrow> bool" where
  "in_loop_title (TitleString sec fps mess) = (mess = ''Remaining'')"
| "in_loop_title _ = True"

fun elapsed_title :: "title \<Rightarrow> bool" where
  "elapsed_title (TitleString sec fps mess) = (mess = ''Elapsed'')"
| "elapsed_title _ = False"

text \<open>The events of the loop itself.\<close>

fun loop_event :: "event \<Rightarrow> bool" where
  "loop_event (ExportFrame ttl a b f d) = (in_loop_title ttl \<and> 1 \<le> d \<and> d \<le> 5)"
| "loop_event ProcessEvents = True"
| "loop_event (WriteFrame f) = True"
| "loop_event (ReadExporting f b) = True"
| "loop_event _ = False"

definition state_ok :: "loop_state \<Rightarrow> bool" where
  "state_ok s = (in_loop_title (title_message s) \<and> 1 \<le> format_digits s \<and> format_digits s \<le> 5)"


text \<open>
  The frames the loop reaches in a list of frames: those after which it goes on,
  and the first one after which it stops; and the way the loop is left.
\<close>

definition written :: "env \<Rightarrow> int list \<Rightarrow> int list" where
  "written e fs = takeWhile (proceeds e) fs @ take 1 (dropWhile (proceeds e) fs)"

definition exit_flow :: "env \<Rightarrow> int list \<Rightarrow> flow" where
  "exit_flow e fs =
     (case dropWhile (proceeds e) fs of
        [] \<Rightarrow> Continue
      | f # rest \<Rightarrow> (case write_frame e f of Some m \<Rightarrow> Raise m | None \<Rightarrow> Break))"

text \<open>The progress event emitted after the loop: its title is an elapsed-time title.\<close>

fun final_event :: "event \<Rightarrow> bool" where
  "final_event (ExportFrame ttl a b f d) = elapsed_title ttl"
| "final_event _ = False"

text \<open>The marker each branch of the handler looks for.\<close>

fun marker :: "failure_kind \<Rightarrow> string" where
  "marker InvalidChannels = ''InvalidChannels''"
| "marker InvalidSampleRate = ''InvalidSampleRate''"
| "marker InvalidFormat = ''InvalidFormat''"
| "marker InvalidCodec = ''InvalidCodec''"
| "marker ErrorEncodingVideo = ''ErrorEncodingVideo''"

text \<open>The place of each branch in the \<open>if\<close>/\<open>elif\<close> chain of the handler.\<close>

fun chain_position :: "failure_kind \<Rightarrow> nat" where
  "chain_position InvalidChannels = 0"
| "chain_position InvalidSampleRate = 1"
| "chain_position InvalidFormat = 2"
| "chain_position InvalidCodec = 3"
| "chain_position ErrorEncodingVideo = 4"

text \<open>The events that record a metric.\<close>

fun is_metric :: "event \<Rightarrow> bool" where
  "is_metric (TrackMetricError kind) = True"
| "is_metric _ = False"

subsection \<open>Concrete environments\<close>

text \<open>
  A clock that advances by half a second per reading; a run in which every write
  returns and nobody cancels; the same run with \<open>self.exporting\<close> read as false
  from frame \<open>k\<close> on; the same run with the write of frame \<open>k\<close> raising \<open>msg\<close>.
\<close>

definition clock :: "nat \<Rightarrow> real" where
  "clock n = of_nat n / 2"

definition run_through :: env where
  "run_through =
     \<lparr>time_time = clock, writer_setup = None, write_frame = (\<lambda>f. None),
      exporting_read = (\<lambda>f. True)\<rparr>"

definition cancelled_at :: "int \<Rightarrow> env" where
  "cancelled_at k = run_through\<lparr>exporting_read := (\<lambda>f. f < k)\<rparr>"

definition failing_at :: "int \<Rightarrow> string \<Rightarrow> env" where
  "failing_at k msg = run_through\<lparr>write_frame := (\<lambda>f. if f = k then Some msg else None)\<rparr>"

section \<open>The loop, step by step\<close>

lemma digits_bounds: "1 \<le> digits_after_decimalpoint x \<and> digits_after_decimalpoint x \<le> 5"
  by (simp add: digits_after_decimalpoint_def Let_def)

lemma display_tick_ok:
  assumes "ef \<noteq> sf" "state_ok s"
  shows "\<exists>ttl d s1. display_tick e sf ef st frame t s
            = ([ExportFrame ttl sf ef frame d, ProcessEvents], s1, Continue)
          \<and> loop_event (ExportFrame ttl sf ef frame d) \<and> state_ok s1
          \<and> end_time_export s1 = end_time_export s"
  using assms digits_bounds
  by (simp add: display_tick_def py_truediv_def Let_def state_ok_def)

lemma progress_update_ok:
  assumes "ef \<noteq> sf" "state_ok s"
  shows "\<exists>ticks s1. progress_update e sf ef step st frame s = (ticks, s1, Continue)
          \<and> (ticks = [] \<or> (\<exists>ttl d. ticks = [ExportFrame ttl sf ef frame d, ProcessEvents]
                \<and> loop_event (ExportFrame ttl sf ef frame d)))
          \<and> state_ok s1 \<and> end_time_export s1 \<noteq> None"
proof -
  let ?t = "time_time e (clock_calls s)"
  let ?s0 = "s\<lparr>clock_calls := Suc (clock_calls s), end_time_export := Some ?t\<rparr>"
  have ok0: "state_ok ?s0" using assms(2) by (simp add: state_ok_def)
  show ?thesis
  proof (cases "frame mod step = 0 \<or> 1 < ?t - last_exported_time ?s0")
    case True
    from display_tick_ok [OF assms(1) ok0, of e st frame ?t]
    obtain ttl d s1 where
      "display_tick e sf ef st frame ?t ?s0 = ([ExportFrame ttl sf ef frame d, ProcessEvents], s1, Continue)"
      "loop_event (ExportFrame ttl sf ef frame d)" "state_ok s1"
      "end_time_export s1 = end_time_export ?s0" by blast
    with True show ?thesis by (simp add: progress_update_def Let_def)
  next
    case False
    with ok0 show ?thesis by (simp add: progress_update_def Let_def)
  qed
qed


lemma writes_append [simp]: "writes (a @ b) = writes a @ writes b"
  by (simp add: writes_def)

lemma writes_Nil [simp]: "writes [] = []"
  by (simp add: writes_def)

lemma writes_Cons:
  "writes (ev # tr) = (case ev of WriteFrame f \<Rightarrow> f # writes tr | _ \<Rightarrow> writes tr)"
  by (cases ev) (simp_all add: writes_def)

lemma progress_frames_append [simp]:
  "progress_frames (a @ b) = progress_frames a @ progress_frames b"
  by (simp add: progress_frames_def)

lemma progress_frames_Nil [simp]: "progress_frames [] = []"
  by (simp add: progress_frames_def)

lemma progress_frames_Cons:
  "progress_frames (ev # tr) =
     (case ev of ExportFrame ttl x y f d \<Rightarrow> f # progress_frames tr | _ \<Rightarrow> progress_frames tr)"
  by (cases ev) (simp_all add: progress_frames_def)


lemma write_and_check_eq:
  "write_and_check e frame s =
     (WriteFrame frame #
        (case write_frame e frame of Some m \<Rightarrow> []
         | None \<Rightarrow> [ReadExporting frame (exporting_read e frame)]),
      s\<lparr>max_frame := frame\<rparr>,
      (case write_frame e frame of Some m \<Rightarrow> Raise m
       | None \<Rightarrow> if exporting_read e frame then Continue else Break))"
  by (simp add: write_and_check_def Let_def split: option.splits)

lemma loop_body_ok:
  assumes "ef \<noteq> sf" "state_ok s"
  shows "\<exists>ticks s1. loop_body e sf ef step st frame s =
            (ticks @ WriteFrame frame #
               (case write_frame e frame of Some m \<Rightarrow> []
                | None \<Rightarrow> [ReadExporting frame (exporting_read e frame)]),
             s1,
             (case write_frame e frame of Some m \<Rightarrow> Raise m
              | None \<Rightarrow> if exporting_read e frame then Continue else Break))
          \<and> (ticks = [] \<or> (\<exists>ttl d. ticks = [ExportFrame ttl sf ef frame d, ProcessEvents]
                \<and> loop_event (ExportFrame ttl sf ef frame d)))
          \<and> state_ok s1 \<and> end_time_export s1 \<noteq> None \<and> max_frame s1 = frame"
proof -
  from progress_update_ok [OF assms, of e step st frame]
  obtain ticks s1 where pu: "progress_update e sf ef step st frame s = (ticks, s1, Continue)"
    and sh: "ticks = [] \<or> (\<exists>ttl d. ticks = [ExportFrame ttl sf ef frame d, ProcessEvents]
                \<and> loop_event (ExportFrame ttl sf ef frame d))"
    and ok: "state_ok s1" "end_time_export s1 \<noteq> None" by blast
  let ?s2 = "s1\<lparr>max_frame := frame\<rparr>"
  have eq: "loop_body e sf ef step st frame s =
            (ticks @ WriteFrame frame #
               (case write_frame e frame of Some m \<Rightarrow> []
                | None \<Rightarrow> [ReadExporting frame (exporting_read e frame)]),
             ?s2,
             (case write_frame e frame of Some m \<Rightarrow> Raise m
              | None \<Rightarrow> if exporting_read e frame then Continue else Break))"
    unfolding loop_body_def pu write_and_check_eq by simp
  have ok2: "state_ok ?s2" "end_time_export ?s2 \<noteq> None" "max_frame ?s2 = frame"
    using ok by (simp_all add: state_ok_def)
  from eq sh ok2 show ?thesis by blast
qed


lemma written_Nil [simp]: "written e [] = []"
  by (simp add: written_def)

lemma written_Cons:
  "written e (f # fs) = f # (if proceeds e f then written e fs else [])"
  by (simp add: written_def)

lemma exit_flow_Nil [simp]: "exit_flow e [] = Continue"
  by (simp add: exit_flow_def)

lemma exit_flow_Cons:
  "exit_flow e (f # fs) =
     (if proceeds e f then exit_flow e fs
      else case write_frame e f of Some m \<Rightarrow> Raise m | None \<Rightarrow> Break)"
  by (simp add: exit_flow_def)

lemma body_flow_proceeds:
  "(case write_frame e f of Some m \<Rightarrow> Raise m
    | None \<Rightarrow> if exporting_read e f then Continue else Break) = Continue
   \<longleftrightarrow> proceeds e f"
  by (simp add: proceeds_def split: option.splits)

lemma frames_loop_Cons_stop:
  "loop_body e sf ef step st f s = (evs, s1, fl) \<Longrightarrow> fl \<noteq> Continue \<Longrightarrow>
   frames_loop e sf ef step st (f # fs) s = (evs, s1, fl)"
  by (cases fl) simp_all

lemma frames_loop_Cons_go:
  "loop_body e sf ef step st f s = (evs, s1, Continue) \<Longrightarrow>
   frames_loop e sf ef step st fs s1 = (evs2, s2, fl) \<Longrightarrow>
   frames_loop e sf ef step st (f # fs) s = (evs @ evs2, s2, fl)"
  by simp

lemma frames_loop_ok:
  assumes "ef \<noteq> sf"
  shows "state_ok s \<Longrightarrow>
         \<exists>evs s'. frames_loop e sf ef step st fs s = (evs, s', exit_flow e fs)
           \<and> (\<forall>ev\<in>set evs. loop_event ev)
           \<and> writes evs = written e fs
           \<and> subseq (progress_frames evs) (written e fs)
           \<and> state_ok s'
           \<and> (fs \<noteq> [] \<longrightarrow> max_frame s' = last (written e fs) \<and> end_time_export s' \<noteq> None)"
proof (induction fs arbitrary: s)
  case Nil
  then show ?case by simp
next
  case (Cons f fs)
  let ?tail = "case write_frame e f of Some m \<Rightarrow> []
                | None \<Rightarrow> [ReadExporting f (exporting_read e f)]"
  let ?fl = "case write_frame e f of Some m \<Rightarrow> Raise m
              | None \<Rightarrow> if exporting_read e f then Continue else Break"
  from loop_body_ok [OF assms Cons.prems, of e step st f]
  obtain ticks s1 where
    body: "loop_body e sf ef step st f s = (ticks @ WriteFrame f # ?tail, s1, ?fl)"
    and sh: "ticks = [] \<or> (\<exists>ttl d. ticks = [ExportFrame ttl sf ef f d, ProcessEvents]
                \<and> loop_event (ExportFrame ttl sf ef f d))"
    and ok1: "state_ok s1" "end_time_export s1 \<noteq> None" "max_frame s1 = f" by blast
  let ?evs1 = "ticks @ WriteFrame f # ?tail"
  have le1: "\<forall>ev\<in>set ?evs1. loop_event ev"
    using sh by (auto split: option.splits)
  have w1: "writes ?evs1 = [f]"
    using sh by (auto simp: writes_Cons split: option.splits)
  have p1: "subseq (progress_frames ?evs1) [f]"
    using sh by (auto simp: progress_frames_Cons split: option.splits)
  show ?case
  proof (cases "proceeds e f")
    case True
    then have fl: "?fl = Continue" using body_flow_proceeds by blast
    from Cons.IH [OF ok1(1)]
    obtain evs2 s2 where
      rest: "frames_loop e sf ef step st fs s1 = (evs2, s2, exit_flow e fs)"
      and le2: "\<forall>ev\<in>set evs2. loop_event ev"
      and w2: "writes evs2 = written e fs"
      and p2: "subseq (progress_frames evs2) (written e fs)"
      and ok2: "state_ok s2"
      and mf2: "fs \<noteq> [] \<longrightarrow> max_frame s2 = last (written e fs) \<and> end_time_export s2 \<noteq> None"
      by blast
    have "exit_flow e (f # fs) = exit_flow e fs"
      using True by (simp add: exit_flow_Cons)
    moreover have "loop_body e sf ef step st f s = (?evs1, s1, Continue)"
      using body fl by simp
    ultimately have eq:
      "frames_loop e sf ef step st (f # fs) s = (?evs1 @ evs2, s2, exit_flow e (f # fs))"
      using rest by (simp only: frames_loop_Cons_go)
    have wr: "written e (f # fs) = [f] @ written e fs"
      using True by (simp add: written_Cons)
    have a: "\<forall>ev\<in>set (?evs1 @ evs2). loop_event ev"
      using le1 le2 by (metis Un_iff set_append)
    have "writes (?evs1 @ evs2) = writes ?evs1 @ writes evs2"
      by (rule writes_append)
    then have b: "writes (?evs1 @ evs2) = written e (f # fs)"
      by (simp only: w1 w2 wr)
    have "subseq (progress_frames ?evs1 @ progress_frames evs2) ([f] @ written e fs)"
      using p1 p2 by (rule list_emb_append_mono)
    moreover have "progress_frames (?evs1 @ evs2) = progress_frames ?evs1 @ progress_frames evs2"
      by (rule progress_frames_append)
    ultimately have c: "subseq (progress_frames (?evs1 @ evs2)) (written e (f # fs))"
      by (simp only: wr)
    have d: "max_frame s2 = last (written e (f # fs)) \<and> end_time_export s2 \<noteq> None"
    proof (cases "fs = []")
      case True
      with rest have "s2 = s1" by simp
      with ok1 True show ?thesis by (simp add: written_Cons)
    next
      case False
      then obtain g gs where "fs = g # gs" by (cases fs) auto
      then have "written e fs \<noteq> []" by (simp add: written_Cons)
      with mf2 False show ?thesis by (simp add: wr)
    qed
    from eq a b c ok2 d show ?thesis by blast
  next
    case False
    then have fl: "?fl \<noteq> Continue" using body_flow_proceeds by blast
    have "exit_flow e (f # fs) = ?fl"
      using False by (auto simp: exit_flow_Cons proceeds_def split: option.splits)
    with frames_loop_Cons_stop [OF body fl, of fs]
    have eq: "frames_loop e sf ef step st (f # fs) s = (?evs1, s1, exit_flow e (f # fs))"
      by simp
    have wr: "written e (f # fs) = [f]"
      using False by (simp add: written_Cons)
    from eq le1 w1 p1 ok1 show ?thesis unfolding wr by (metis last.simps)
  qed
qed



lemma written_all:
  assumes "\<forall>f\<in>set fs. proceeds e f"
  shows "written e fs = fs" and "exit_flow e fs = Continue"
proof -
  have tw: "takeWhile (proceeds e) fs = fs"
    using assms by (simp add: takeWhile_eq_all_conv)
  have dw: "dropWhile (proceeds e) fs = []"
    using assms by simp
  show "written e fs = fs" unfolding written_def tw dw by simp
  show "exit_flow e fs = Continue" unfolding exit_flow_def dw by simp
qed

lemma written_upto_stop:
  assumes "sf \<le> k" "k \<le> ef" "\<forall>f. sf \<le> f \<and> f < k \<longrightarrow> proceeds e f" "\<not> proceeds e k"
  shows "written e [sf..ef] = [sf..k]"
    and "exit_flow e [sf..ef] = (case write_frame e k of Some m \<Rightarrow> Raise m | None \<Rightarrow> Break)"
proof -
  have split: "[sf..ef] = [sf..k - 1] @ k # [k + 1..ef]"
    using assms(1,2) by (rule upto_split3)
  have pre: "\<And>f. f \<in> set [sf..k - 1] \<Longrightarrow> proceeds e f" using assms(3) by simp
  have "takeWhile (proceeds e) ([sf..k - 1] @ k # [k + 1..ef])
          = [sf..k - 1] @ takeWhile (proceeds e) (k # [k + 1..ef])"
    using pre by (rule takeWhile_append2)
  then have tw: "takeWhile (proceeds e) [sf..ef] = [sf..k - 1]"
    unfolding split using assms(4) by simp
  have "dropWhile (proceeds e) ([sf..k - 1] @ k # [k + 1..ef])
          = dropWhile (proceeds e) (k # [k + 1..ef])"
    using pre by (rule dropWhile_append2)
  then have dw: "dropWhile (proceeds e) [sf..ef] = k # [k + 1..ef]"
    unfolding split using assms(4) by simp
  have "[sf..k] = [sf..k - 1] @ [k]" using assms(1) by (rule upto_rec2)
  then show "written e [sf..ef] = [sf..k]"
    unfolding written_def tw dw by simp
  show "exit_flow e [sf..ef] = (case write_frame e k of Some m \<Rightarrow> Raise m | None \<Rightarrow> Break)"
    unfolding exit_flow_def dw by simp
qed

lemma initial_state_ok: "state_ok (initial_state e)"
  by (simp add: initial_state_def state_ok_def)


lemma try_block_unfold:
  assumes "writer_setup e = None"
    and "frames_loop e sf ef (progressstep sf ef) (time_time e 0) [sf..ef] (initial_state e)
           = (evs, s, fl)"
  shows "try_block e sf ef =
          [WriterOpen, ExportStarted sf ef] @ evs @
          (case fl of
             Raise msg \<Rightarrow> exception_handler msg
           | _ \<Rightarrow>
               WriterClose #
               (case end_time_export s of
                  None \<Rightarrow> exception_handler unbound_end_time
                | Some t \<Rightarrow>
                    [ExportFrame
                       (TitleString (py_round (t - time_time e 0)) (fps_encode s) ''Elapsed'')
                       sf ef (max_frame s) (format_digits s)]))"
  unfolding try_block_def Let_def assms by simp

lemma try_block_no_raise:
  assumes "sf < ef" "writer_setup e = None" "\<forall>m. exit_flow e [sf..ef] \<noteq> Raise m"
  shows "\<exists>evs ttl d. try_block e sf ef =
            [WriterOpen, ExportStarted sf ef] @ evs @
            [WriterClose, ExportFrame ttl sf ef (last (written e [sf..ef])) d]
          \<and> elapsed_title ttl \<and> 1 \<le> d \<and> d \<le> 5
          \<and> (\<forall>ev\<in>set evs. loop_event ev)
          \<and> writes evs = written e [sf..ef]
          \<and> subseq (progress_frames evs) (written e [sf..ef])"
proof -
  have ne: "ef \<noteq> sf" "[sf..ef] \<noteq> []" using assms(1) by simp_all
  from frames_loop_ok [OF ne(1) initial_state_ok, of e "progressstep sf ef" "time_time e 0" "[sf..ef]"]
  obtain evs s' where
    loop: "frames_loop e sf ef (progressstep sf ef) (time_time e 0) [sf..ef] (initial_state e)
             = (evs, s', exit_flow e [sf..ef])"
    and le: "\<forall>ev\<in>set evs. loop_event ev"
    and w: "writes evs = written e [sf..ef]"
    and p: "subseq (progress_frames evs) (written e [sf..ef])"
    and ok: "state_ok s'"
    and mf: "max_frame s' = last (written e [sf..ef])" "end_time_export s' \<noteq> None"
    using ne(2) by blast
  from mf(2) obtain t where t: "end_time_export s' = Some t" by auto
  let ?ttl = "TitleString (py_round (t - time_time e 0)) (fps_encode s') ''Elapsed''"
  have fl: "exit_flow e [sf..ef] = Continue \<or> exit_flow e [sf..ef] = Break"
    using assms(3) by (cases "exit_flow e [sf..ef]") simp_all
  have eq: "try_block e sf ef =
          [WriterOpen, ExportStarted sf ef] @ evs @
          [WriterClose, ExportFrame ?ttl sf ef (last (written e [sf..ef])) (format_digits s')]"
    using fl unfolding try_block_unfold [OF assms(2) loop] t mf(1) by auto
  have el: "elapsed_title ?ttl" by simp
  have dg: "1 \<le> format_digits s'" "format_digits s' \<le> 5"
    using ok by (simp_all add: state_ok_def)
  show ?thesis
    by (rule exI [of _ evs], rule exI [of _ ?ttl], rule exI [of _ "format_digits s'"])
       (intro conjI eq el dg le w p)
qed

lemma try_block_raise:
  assumes "sf < ef" "writer_setup e = None" "exit_flow e [sf..ef] = Raise m"
  shows "\<exists>evs. try_block e sf ef =
            [WriterOpen, ExportStarted sf ef] @ evs @ exception_handler m
          \<and> (\<forall>ev\<in>set evs. loop_event ev)
          \<and> writes evs = written e [sf..ef]
          \<and> subseq (progress_frames evs) (written e [sf..ef])"
proof -
  have ne: "ef \<noteq> sf" using assms(1) by simp
  from frames_loop_ok [OF ne initial_state_ok, of e "progressstep sf ef" "time_time e 0" "[sf..ef]"]
  obtain evs s' where
    loop: "frames_loop e sf ef (progressstep sf ef) (time_time e 0) [sf..ef] (initial_state e)
             = (evs, s', exit_flow e [sf..ef])"
    and le: "\<forall>ev\<in>set evs. loop_event ev"
    and w: "writes evs = written e [sf..ef]"
    and p: "subseq (progress_frames evs) (written e [sf..ef])"
    by blast
  have eq: "try_block e sf ef = [WriterOpen, ExportStarted sf ef] @ evs @ exception_handler m"
    unfolding try_block_unfold [OF assms(2) loop] assms(3) by simp
  show ?thesis
    by (rule exI [of _ evs]) (intro conjI eq le w p)
qed

lemma writes_exception_handler [simp]: "writes (exception_handler m) = []"
  by (simp add: exception_handler_def writes_Cons split: option.splits)

lemma progress_frames_exception_handler [simp]: "progress_frames (exception_handler m) = []"
  by (simp add: exception_handler_def progress_frames_Cons split: option.splits)

lemma exit_flow_cases:
  obtains (raise) m where "exit_flow e fs = Raise m"
        | (no_raise) "\<forall>m. exit_flow e fs \<noteq> Raise m"
  by blast

lemma accept_writes:
  assumes "sf < ef" "writer_setup e = None"
  shows "writes (accept e sf ef) = written e [sf..ef]"
proof (cases rule: exit_flow_cases [of e "[sf..ef]"])
  case (raise m)
  from try_block_raise [OF assms raise]
  obtain evs where "try_block e sf ef = [WriterOpen, ExportStarted sf ef] @ evs @ exception_handler m"
    and "writes evs = written e [sf..ef]" by blast
  then show ?thesis using assms(1) by (simp add: accept_def writes_Cons)
next
  case no_raise
  from try_block_no_raise [OF assms no_raise]
  obtain evs ttl d where "try_block e sf ef =
            [WriterOpen, ExportStarted sf ef] @ evs @
            [WriterClose, ExportFrame ttl sf ef (last (written e [sf..ef])) d]"
    and "writes evs = written e [sf..ef]" by blast
  then show ?thesis using assms(1) by (simp add: accept_def writes_Cons)
qed

lemma set_writes: "set (writes tr) = {f. WriteFrame f \<in> set tr}"
proof (induction tr)
  case Nil
  show ?case by simp
next
  case (Cons ev tr)
  then show ?case by (cases ev) (auto simp: writes_Cons)
qed

lemma accept_no_raise:
  assumes "sf < ef" "writer_setup e = None" "\<forall>m. exit_flow e [sf..ef] \<noteq> Raise m"
  shows "\<exists>evs ttl d. accept e sf ef =
            [WriterOpen, ExportStarted sf ef] @ evs @
            [WriterClose, ExportFrame ttl sf ef (last (written e [sf..ef])) d,
             ExportEnded, TimelineClose, ClearAllCache]
          \<and> elapsed_title ttl \<and> 1 \<le> d \<and> d \<le> 5
          \<and> (\<forall>ev\<in>set evs. loop_event ev)
          \<and> writes evs = written e [sf..ef]
          \<and> subseq (progress_frames evs) (written e [sf..ef])"
proof -
  from try_block_no_raise [OF assms]
  obtain evs ttl d where tb: "try_block e sf ef =
            [WriterOpen, ExportStarted sf ef] @ evs @
            [WriterClose, ExportFrame ttl sf ef (last (written e [sf..ef])) d]"
    and rest: "elapsed_title ttl" "1 \<le> d" "d \<le> 5" "\<forall>ev\<in>set evs. loop_event ev"
      "writes evs = written e [sf..ef]" "subseq (progress_frames evs) (written e [sf..ef])"
    by blast
  have eq: "accept e sf ef =
            [WriterOpen, ExportStarted sf ef] @ evs @
            [WriterClose, ExportFrame ttl sf ef (last (written e [sf..ef])) d,
             ExportEnded, TimelineClose, ClearAllCache]"
    using assms(1) by (simp add: accept_def tb)
  show ?thesis
    by (rule exI [of _ evs], rule exI [of _ ttl], rule exI [of _ d]) (intro conjI eq rest)
qed

lemma accept_raise:
  assumes "sf < ef" "writer_setup e = None" "exit_flow e [sf..ef] = Raise m"
  shows "\<exists>evs. accept e sf ef =
            [WriterOpen, ExportStarted sf ef] @ evs @ exception_handler m @
            [ExportEnded, TimelineClose, ClearAllCache]
          \<and> (\<forall>ev\<in>set evs. loop_event ev)
          \<and> writes evs = written e [sf..ef]
          \<and> subseq (progress_frames evs) (written e [sf..ef])"
proof -
  from try_block_raise [OF assms]
  obtain evs where tb: "try_block e sf ef =
            [WriterOpen, ExportStarted sf ef] @ evs @ exception_handler m"
    and rest: "\<forall>ev\<in>set evs. loop_event ev"
      "writes evs = written e [sf..ef]" "subseq (progress_frames evs) (written e [sf..ef])"
    by blast
  have eq: "accept e sf ef =
            [WriterOpen, ExportStarted sf ef] @ evs @ exception_handler m @
            [ExportEnded, TimelineClose, ClearAllCache]"
    using assms(1) by (simp add: accept_def tb)
  show ?thesis
    by (rule exI [of _ evs]) (intro conjI eq rest)
qed

lemma loop_event_not_final: "loop_event ev \<Longrightarrow> \<not> final_event ev"
proof (cases ev)
  case (ExportFrame ttl a b f d)
  assume "loop_event ev"
  with ExportFrame have "in_loop_title ttl" by simp
  then have "\<not> elapsed_title ttl" by (cases ttl) auto
  with ExportFrame show ?thesis by simp
qed simp_all

lemma written_subset: "set (written e fs) \<subseteq> set fs"
proof -
  have "set (take 1 (dropWhile (proceeds e) fs)) \<subseteq> set fs"
    using set_take_subset [of 1 "dropWhile (proceeds e) fs"] set_dropWhileD [of _ "proceeds e" fs]
    by blast
  moreover have "set (takeWhile (proceeds e) fs) \<subseteq> set fs"
    using set_takeWhileD [of _ "proceeds e" fs] by blast
  ultimately show ?thesis by (simp add: written_def)
qed

lemma exit_flow_Raise_written:
  assumes "exit_flow e fs = Raise m"
  shows "\<exists>f\<in>set (written e fs). write_frame e f = Some m"
proof (cases "dropWhile (proceeds e) fs")
  case Nil
  with assms show ?thesis by (simp add: exit_flow_def)
next
  case (Cons f rest)
  with assms have "write_frame e f = Some m"
    by (simp add: exit_flow_def split: option.splits)
  moreover have "f \<in> set (written e fs)" using Cons by (simp add: written_def)
  ultimately show ?thesis by blast
qed

lemma display_tick_digits:
  assumes "ef \<noteq> sf"
  shows "\<exists>ttl s'. display_tick e sf ef st frame t s =
           ([ExportFrame ttl sf ef frame
               (digits_after_decimalpoint
                  (of_int (frame - sf) / of_int (ef - sf) - last_displayed_exported_portion s)),
             ProcessEvents], s', Continue)"
  using assms by (simp add: display_tick_def py_truediv_def Let_def)

lemma ceiling_log_2000: "\<lceil>- 2 - log 10 (1 / 2000 :: real)\<rceil> = 2"
proof (rule ceiling_unique)
  have "log 10 (1 / 2000 :: real) < - 3"
    by (subst log_less_iff) (simp_all add: powr_neg_numeral)
  then show "of_int 2 - 1 < - 2 - log 10 (1 / 2000 :: real)" by simp
  have "- 4 \<le> log 10 (1 / 2000 :: real)"
    by (subst le_log_iff) (simp_all add: powr_neg_numeral)
  then show "- 2 - log 10 (1 / 2000 :: real) \<le> of_int 2" by simp
qed

lemma accept_write_failure:
  assumes "sf \<le> k" "k \<le> ef" "sf < ef" "writer_setup e = None"
    and "\<forall>f. sf \<le> f \<and> f < k \<longrightarrow> write_frame e f = None \<and> exporting_read e f"
    and "write_frame e k = Some msg"
  shows "\<exists>evs. accept e sf ef =
            [WriterOpen, ExportStarted sf ef] @ evs @ exception_handler msg @
            [ExportEnded, TimelineClose, ClearAllCache]
          \<and> (\<forall>ev\<in>set evs. loop_event ev)
          \<and> writes evs = [sf..k]"
proof -
  have pre: "\<forall>f. sf \<le> f \<and> f < k \<longrightarrow> proceeds e f"
    using assms(5) by (simp add: proceeds_def)
  have stop: "\<not> proceeds e k" using assms(6) by (simp add: proceeds_def)
  have wr: "written e [sf..ef] = [sf..k]"
    using assms(1,2) pre stop by (rule written_upto_stop(1))
  have "exit_flow e [sf..ef] = (case write_frame e k of Some m \<Rightarrow> Raise m | None \<Rightarrow> Break)"
    using assms(1,2) pre stop by (rule written_upto_stop(2))
  then have fl: "exit_flow e [sf..ef] = Raise msg" by (simp add: assms(6))
  from accept_raise [OF assms(3,4) fl] show ?thesis unfolding wr by blast
qed

lemma split_first_no_sep: "\<not> sublist sep s \<Longrightarrow> split_first sep s = s"
proof (induction s)
  case Nil
  show ?case by simp
next
  case (Cons c cs)
  then show ?case by (simp add: sublist_Cons_right)
qed

lemma friendly_error_plain:
  assumes "CHR ''<'' \<notin> set msg" "\<not> sublist ''> '' msg"
  shows "friendly_error msg = msg"
  using assms by (auto simp: friendly_error_def split_first_no_sep filter_id_conv)

lemma classify_Some_marker: "classify msg = Some kind \<Longrightarrow> sublist (marker kind) msg"
  by (auto simp: classify_def split: if_splits)

lemma classify_None_iff: "classify msg = None \<longleftrightarrow> (\<forall>kind. \<not> sublist (marker kind) msg)"
proof
  assume "classify msg = None"
  then have n: "\<not> sublist ''InvalidChannels'' msg" "\<not> sublist ''InvalidSampleRate'' msg"
    "\<not> sublist ''InvalidFormat'' msg" "\<not> sublist ''InvalidCodec'' msg"
    "\<not> sublist ''ErrorEncodingVideo'' msg"
    by (simp_all add: classify_def split: if_splits)
  show "\<forall>kind. \<not> sublist (marker kind) msg"
  proof
    fix kind show "\<not> sublist (marker kind) msg" using n by (cases kind) simp_all
  qed
next
  assume a: "\<forall>kind. \<not> sublist (marker kind) msg"
  have "\<not> sublist ''InvalidChannels'' msg" using a [rule_format, of InvalidChannels] by simp
  moreover have "\<not> sublist ''InvalidSampleRate'' msg" using a [rule_format, of InvalidSampleRate] by simp
  moreover have "\<not> sublist ''InvalidFormat'' msg" using a [rule_format, of InvalidFormat] by simp
  moreover have "\<not> sublist ''InvalidCodec'' msg" using a [rule_format, of InvalidCodec] by simp
  moreover have "\<not> sublist ''ErrorEncodingVideo'' msg" using a [rule_format, of ErrorEncodingVideo] by simp
  ultimately show "classify msg = None" by (simp add: classify_def)
qed

lemma classify_marker: "classify (marker kind) = Some kind"
  by (cases kind) (simp_all add: classify_def sublist_code)


lemma inj_marker: "inj marker"
proof (rule injI)
  fix x y assume "marker x = marker y"
  then show "x = y" by (cases x; cases y) simp_all
qed

lemma handler_events:
  assumes "ev \<in> set (LogInfo msg #
             (case classify msg of Some kind \<Rightarrow> [TrackMetricError kind] | None \<Rightarrow> []))"
  shows "ev \<noteq> WriterClose \<and> ev \<noteq> TimelineClose \<and> ev \<noteq> ClearAllCache
         \<and> (\<forall>m. ev \<noteq> ErrorDialog m)"
proof (cases "classify msg")
  case None
  with assms show ?thesis by simp
next
  case (Some kind)
  with assms have "ev = LogInfo msg \<or> ev = TrackMetricError kind" by simp
  then show ?thesis by auto
qed

lemma loop_event_kinds:
  "loop_event ev \<Longrightarrow>
     ev \<noteq> WriterClose \<and> ev \<noteq> TimelineClose \<and> ev \<noteq> ClearAllCache \<and> (\<forall>m. ev \<noteq> ErrorDialog m)"
  by (cases ev) simp_all

lemma accept_write_failure_pre:
  assumes "sf \<le> k" "k \<le> ef" "sf < ef" "writer_setup e = None"
    and "\<forall>f. sf \<le> f \<and> f < k \<longrightarrow> write_frame e f = None \<and> exporting_read e f"
    and "write_frame e k = Some msg"
  shows "\<exists>pre. accept e sf ef =
            pre @ [ErrorDialog (friendly_error msg), ExportEnded, TimelineClose, ClearAllCache]
          \<and> LogInfo msg \<in> set pre
          \<and> (\<forall>ev\<in>set pre. ev \<noteq> WriterClose \<and> ev \<noteq> TimelineClose \<and> ev \<noteq> ClearAllCache
                \<and> (\<forall>m. ev \<noteq> ErrorDialog m))"
proof -
  from accept_write_failure [OF assms]
  obtain evs where eq: "accept e sf ef =
            [WriterOpen, ExportStarted sf ef] @ evs @ exception_handler msg @
            [ExportEnded, TimelineClose, ClearAllCache]"
    and le: "\<forall>ev\<in>set evs. loop_event ev" by blast
  let ?h = "LogInfo msg # (case classify msg of Some kind \<Rightarrow> [TrackMetricError kind] | None \<Rightarrow> [])"
  let ?pre = "[WriterOpen, ExportStarted sf ef] @ evs @ ?h"
  have eq': "accept e sf ef =
            ?pre @ [ErrorDialog (friendly_error msg), ExportEnded, TimelineClose, ClearAllCache]"
    unfolding eq exception_handler_def by simp
  have li: "LogInfo msg \<in> set ?pre" by simp
  have none: "\<forall>ev\<in>set ?pre. ev \<noteq> WriterClose \<and> ev \<noteq> TimelineClose \<and> ev \<noteq> ClearAllCache
                \<and> (\<forall>m. ev \<noteq> ErrorDialog m)"
  proof
    fix ev assume "ev \<in> set ?pre"
    then consider "ev \<in> set [WriterOpen, ExportStarted sf ef]" | "ev \<in> set evs"
      | "ev \<in> set ?h"
      unfolding set_append Un_iff by blast
    then show "ev \<noteq> WriterClose \<and> ev \<noteq> TimelineClose \<and> ev \<noteq> ClearAllCache
                \<and> (\<forall>m. ev \<noteq> ErrorDialog m)"
    proof cases
      case 1 then show ?thesis by auto
    next
      case 2 with le have "loop_event ev" by blast
      then show ?thesis by (rule loop_event_kinds)
    next
      case 3 then show ?thesis by (rule handler_events)
    qed
  qed
  show ?thesis by (rule exI [of _ ?pre]) (intro conjI eq' li none)
qed

lemma accept_write_failure_closes:
  assumes "sf \<le> k" "k \<le> ef" "sf < ef" "writer_setup e = None"
    and "\<forall>f. sf \<le> f \<and> f < k \<longrightarrow> write_frame e f = None \<and> exporting_read e f"
    and "write_frame e k = Some msg"
  shows "closes (accept e sf ef) = 0"
proof -
  from accept_write_failure_pre [OF assms]
  obtain pre where eq: "accept e sf ef =
            pre @ [ErrorDialog (friendly_error msg), ExportEnded, TimelineClose, ClearAllCache]"
    and none: "\<forall>ev\<in>set pre. ev \<noteq> WriterClose \<and> ev \<noteq> TimelineClose \<and> ev \<noteq> ClearAllCache
                \<and> (\<forall>m. ev \<noteq> ErrorDialog m)" by blast
  have "filter (\<lambda>ev. ev = WriterClose) pre = []"
    using none by (simp add: filter_empty_conv)
  then show ?thesis unfolding closes_def eq by simp
qed

lemma failing_at_5_hyps:
  "writer_setup (failing_at 5 msg) = None"
  "\<forall>f. 1 \<le> f \<and> f < 5 \<longrightarrow> write_frame (failing_at 5 msg) f = None \<and> exporting_read (failing_at 5 msg) f"
  "write_frame (failing_at 5 msg) 5 = Some msg"
  by (simp_all add: failing_at_def run_through_def)


lemma upto_1_2: "[1..2::int] = [1, 2]"
  by (simp add: upto_rec1)

lemma progressstep_1_2: "progressstep 1 2 = 1"
  by (simp add: progressstep_def py_round_def Let_def)

lemma digits_0: "digits_after_decimalpoint 0 = 1"
  by (simp add: digits_after_decimalpoint_def Let_def)

lemma digits_1: "digits_after_decimalpoint 1 = 1"
  by (simp add: digits_after_decimalpoint_def Let_def)

lemma accept_run_through_1_2:
  "accept run_through 1 2 =
     [WriterOpen, ExportStarted 1 2,
      ExportFrame Blank 1 2 1 1, ProcessEvents, WriteFrame 1, ReadExporting 1 True,
      ExportFrame Finalizing 1 2 2 1, ProcessEvents, WriteFrame 2, ReadExporting 2 True,
      WriterClose, ExportFrame (TitleString 2 (1 / 2) ''Elapsed'') 1 2 2 1,
      ExportEnded, TimelineClose, ClearAllCache]"
  by (simp add: accept_def try_block_def upto_1_2 progressstep_1_2 loop_body_def
        progress_update_def display_tick_def write_and_check_def py_truediv_def
        digits_0 digits_1 seconds_left_def py_round_def initial_state_def
        run_through_def clock_def Let_def)

lemma subseq_subset: "subseq xs ys \<Longrightarrow> set xs \<subseteq> set ys"
  by (induction rule: list_emb.induct) auto

lemma sorted_wrt_subseq: "subseq xs ys \<Longrightarrow> sorted_wrt P ys \<Longrightarrow> sorted_wrt P xs"
proof (induction rule: list_emb.induct)
  case (list_emb_Nil ys)
  show ?case by simp
next
  case (list_emb_Cons xs ys y)
  then show ?case by simp
next
  case (list_emb_Cons2 x y xs ys)
  from list_emb_Cons2.hyps(2) have "set xs \<subseteq> set ys" by (rule subseq_subset)
  with list_emb_Cons2 show ?case by auto
qed

lemma written_prefix: "prefix (written e fs) fs"
proof -
  have "prefix (takeWhile (proceeds e) fs @ take 1 (dropWhile (proceeds e) fs))
               (takeWhile (proceeds e) fs @ dropWhile (proceeds e) fs)"
    unfolding same_prefix_prefix by (rule take_is_prefix)
  then show ?thesis by (simp add: written_def)
qed

lemma sorted_wrt_less_le_last:
  fixes xs :: "int list"
  shows "sorted_wrt (<) xs \<Longrightarrow> x \<in> set xs \<Longrightarrow> x \<le> last xs"
proof (induction xs)
  case Nil
  then show ?case by simp
next
  case (Cons y ys)
  show ?case
  proof (cases "ys = []")
    case True
    with Cons.prems show ?thesis by simp
  next
    case False
    then have l: "last ys \<in> set ys" by simp
    show ?thesis
    proof (cases "x = y")
      case True
      from Cons.prems(1) l have "y < last ys" by simp
      with True show ?thesis by simp
    next
      case neq: False
      with Cons.prems have "x \<in> set ys" "sorted_wrt (<) ys" by simp_all
      with Cons.IH False show ?thesis by simp
    qed
  qed
qed

lemma written_upto_sorted:
  assumes "sf < ef"
  shows "sorted_wrt (<) (written e [sf..ef])" and "written e [sf..ef] \<noteq> []"
proof -
  have "subseq (written e [sf..ef]) [sf..ef]"
    using written_prefix by (rule prefix_imp_subseq)
  then show "sorted_wrt (<) (written e [sf..ef])"
    by (rule sorted_wrt_subseq) simp
  have "[sf..ef] = sf # [sf + 1..ef]" using assms by (simp add: upto_rec1)
  then show "written e [sf..ef] \<noteq> []" by (simp add: written_Cons)
qed

lemma strict_sorted_imp_sorted:
  fixes xs :: "int list"
  shows "sorted_wrt (<) xs \<Longrightarrow> sorted_wrt (\<le>) xs"
  by (rule sorted_wrt_mono_rel [of xs "(<)" "(\<le>)"]) simp_all


lemma progress_frames_raise:
  assumes "sf < ef" "writer_setup e = None" "exit_flow e [sf..ef] = Raise m"
  shows "subseq (progress_frames (accept e sf ef)) (written e [sf..ef])"
proof -
  from accept_raise [OF assms]
  obtain evs where eq: "accept e sf ef =
            [WriterOpen, ExportStarted sf ef] @ evs @ exception_handler m @
            [ExportEnded, TimelineClose, ClearAllCache]"
    and p: "subseq (progress_frames evs) (written e [sf..ef])" by blast
  have "progress_frames (accept e sf ef) = progress_frames evs"
    unfolding eq by (simp add: progress_frames_Cons)
  with p show ?thesis by simp
qed

lemma progress_frames_no_raise:
  assumes "sf < ef" "writer_setup e = None" "\<forall>m. exit_flow e [sf..ef] \<noteq> Raise m"
  shows "\<exists>ticks. progress_frames (accept e sf ef) = ticks @ [last (written e [sf..ef])]
           \<and> subseq ticks (written e [sf..ef])"
proof -
  from accept_no_raise [OF assms]
  obtain evs ttl d where eq: "accept e sf ef =
            [WriterOpen, ExportStarted sf ef] @ evs @
            [WriterClose, ExportFrame ttl sf ef (last (written e [sf..ef])) d,
             ExportEnded, TimelineClose, ClearAllCache]"
    and p: "subseq (progress_frames evs) (written e [sf..ef])" by blast
  have "progress_frames (accept e sf ef) = progress_frames evs @ [last (written e [sf..ef])]"
    unfolding eq by (simp add: progress_frames_Cons)
  with p show ?thesis by blast
qed

lemma split_first_prefix: "prefix (split_first sep s) s"
  by (induction s) simp_all

lemma split_first_id_no_sep:
  "sep \<noteq> [] \<Longrightarrow> split_first sep s = s \<Longrightarrow> \<not> sublist sep s"
proof (induction s)
  case Nil
  then show ?case by simp
next
  case (Cons c cs)
  from Cons.prems(2) have np: "\<not> prefix sep (c # cs)" and eq: "split_first sep cs = cs"
    by (simp_all split: if_splits)
  from Cons.IH [OF Cons.prems(1) eq] np show ?case
    by (simp add: sublist_Cons_right)
qed

lemma friendly_error_id_iff:
  "friendly_error msg = msg \<longleftrightarrow> CHR ''<'' \<notin> set msg \<and> \<not> sublist ''> '' msg"
proof
  assume eq: "friendly_error msg = msg"
  let ?p = "split_first ''> '' msg"
  have f: "filter (\<lambda>c. c \<noteq> CHR ''<'') ?p = msg"
    using eq by (simp add: friendly_error_def)
  obtain r where r: "msg = ?p @ r"
    using split_first_prefix [of "''> ''" msg] by (auto simp: prefix_def)
  have "length msg \<le> length ?p"
    using length_filter_le [of "\<lambda>c. c \<noteq> CHR ''<''" ?p] unfolding f .
  moreover have "length msg = length ?p + length r"
    using arg_cong [OF r, of length] by simp
  ultimately have "r = []" by simp
  with r have p: "?p = msg" by simp
  then have a: "\<not> sublist ''> '' msg"
    by (intro split_first_id_no_sep) simp_all
  from f p have "filter (\<lambda>c. c \<noteq> CHR ''<'') msg = msg" by simp
  then have b: "CHR ''<'' \<notin> set msg" by (auto simp: filter_id_conv)
  from a b show "CHR ''<'' \<notin> set msg \<and> \<not> sublist ''> '' msg" by simp
next
  assume "CHR ''<'' \<notin> set msg \<and> \<not> sublist ''> '' msg"
  then show "friendly_error msg = msg" by (simp add: friendly_error_plain)
qed

lemma friendly_error_no_lt: "CHR ''<'' \<notin> set (friendly_error msg)"
  by (simp add: friendly_error_def)

lemma classify_first_marker:
  assumes "classify msg = Some kind" "sublist (marker kind') msg"
  shows "chain_position kind \<le> chain_position kind'"
  using assms by (cases kind') (auto simp: classify_def split: if_splits)

lemma loop_event_not_metric: "loop_event ev \<Longrightarrow> \<not> is_metric ev"
  by (cases ev) simp_all

lemma unrecognised_example:
  "classify ''<OutOfBoundsFrame> frame 5'' = None"
  "friendly_error ''<OutOfBoundsFrame> frame 5'' = ''OutOfBoundsFrame''"
  by (simp_all add: classify_def friendly_error_def sublist_code)


lemma exception_handler_unrecognised:
  "exception_handler ''<OutOfBoundsFrame> frame 5'' =
     [LogInfo ''<OutOfBoundsFrame> frame 5'', ErrorDialog ''OutOfBoundsFrame'']"
  by (simp add: exception_handler_def unrecognised_example)

lemma loop_event_not_handler:
  "loop_event ev \<Longrightarrow>
     ev \<noteq> WriterClose \<and> ev \<noteq> ExportEnded \<and> ev \<noteq> TimelineClose \<and> ev \<noteq> ClearAllCache
     \<and> (\<forall>m. ev \<noteq> ErrorDialog m) \<and> (\<forall>m. ev \<noteq> LogInfo m)
     \<and> (\<forall>kind. ev \<noteq> TrackMetricError kind)"
  by (cases ev) simp_all

lemma count_list_loop_events:
  assumes "\<forall>ev\<in>set evs. loop_event ev"
  shows "count_list evs WriterClose = 0" "count_list evs ExportEnded = 0"
    "count_list evs TimelineClose = 0" "count_list evs ClearAllCache = 0"
    "count_list evs (ErrorDialog m) = 0" "count_list evs (LogInfo m) = 0"
  using assms loop_event_not_handler by (fastforce simp: count_list_0_iff)+

section \<open>The claims\<close>

text \<open>
  Claim C1. For every range with \<open>start_frame < end_frame\<close>, when the writer is set
  up, no write raises and \<open>self.exporting\<close> is read as true after every frame, the
  run calls \<open>WriteFrame\<close> exactly \<open>end_frame - start_frame + 1\<close> times, once per
  frame, in strictly increasing order from \<open>start_frame\<close> to \<open>end_frame\<close>.
\<close>

theorem export_writes_every_frame:
  assumes "start_frame < end_frame" and "writer_setup e = None"
    and "\<forall>f\<in>{start_frame..end_frame}. write_frame e f = None \<and> exporting_read e f"
  shows "writes (accept e start_frame end_frame) = [start_frame..end_frame]
       \<and> frames_written (accept e start_frame end_frame) = nat (end_frame - start_frame + 1)
       \<and> sorted_wrt (<) (writes (accept e start_frame end_frame))"
proof -
  have "\<forall>f\<in>set [start_frame..end_frame]. proceeds e f"
    using assms(3) by (simp add: proceeds_def)
  then have "written e [start_frame..end_frame] = [start_frame..end_frame]"
    by (rule written_all)
  with accept_writes [OF assms(1,2)]
  have w: "writes (accept e start_frame end_frame) = [start_frame..end_frame]" by simp
  show ?thesis unfolding frames_written_def w by simp
qed

text \<open>
  The scenario of the range 1 to 1000: the step is 1 and there are exactly 1000 writes.
\<close>

theorem export_writes_every_frame_witness:
  "(1::int) < 1000
   \<and> writes (accept run_through 1 1000) = [1..1000]
   \<and> frames_written (accept run_through 1 1000) = 1000
   \<and> progressstep 1 1000 = 1"
proof -
  have "writer_setup run_through = None"
    and "\<forall>f\<in>{1..1000}. write_frame run_through f = None \<and> exporting_read run_through f"
    by (simp_all add: run_through_def)
  with export_writes_every_frame [of 1 1000 run_through]
  have "writes (accept run_through 1 1000) = [1..1000]"
    and "frames_written (accept run_through 1 1000) = nat (1000 - 1 + 1)" by simp_all
  moreover have "progressstep 1 1000 = 1"
    by (simp add: progressstep_def py_round_def Let_def)
  ultimately show ?thesis by simp
qed


text \<open>
  Claim C3. When \<open>self.exporting\<close> is first read as false after the write of frame
  \<open>k\<close>, with \<open>start_frame \<le> k < end_frame\<close> and no write up to \<open>k\<close> raising, the
  write of frame \<open>k\<close> is made, no frame after \<open>k\<close> is written, the number of
  frames written is \<open>k - start_frame + 1\<close>, and the run ends as a cancelled one:
  the writer is closed and the final progress event carries frame \<open>k\<close>.
\<close>

theorem cancel_stops_after_current_frame:
  assumes "start_frame \<le> k" and "k < end_frame" and "writer_setup e = None"
    and "\<forall>f. start_frame \<le> f \<and> f \<le> k \<longrightarrow> write_frame e f = None"
    and "\<forall>f. start_frame \<le> f \<and> f < k \<longrightarrow> exporting_read e f"
    and "\<not> exporting_read e k"
  shows "writes (accept e start_frame end_frame) = [start_frame..k]
       \<and> (\<forall>f. k < f \<longrightarrow> WriteFrame f \<notin> set (accept e start_frame end_frame))
       \<and> frames_written (accept e start_frame end_frame) = nat (k - start_frame + 1)
       \<and> (\<exists>evs ttl d. accept e start_frame end_frame =
             [WriterOpen, ExportStarted start_frame end_frame] @ evs @
             [WriterClose, ExportFrame ttl start_frame end_frame k d,
              ExportEnded, TimelineClose, ClearAllCache]
             \<and> elapsed_title ttl \<and> (\<forall>ev\<in>set evs. loop_event ev))"
proof -
  have lt: "start_frame < end_frame" and le: "k \<le> end_frame" using assms(1,2) by simp_all
  have pre: "\<forall>f. start_frame \<le> f \<and> f < k \<longrightarrow> proceeds e f"
    using assms(4,5) by (simp add: proceeds_def)
  have stop: "\<not> proceeds e k" using assms(6) by (simp add: proceeds_def)
  have wk: "write_frame e k = None" using assms(1,4) by simp
  have wr: "written e [start_frame..end_frame] = [start_frame..k]"
    using assms(1) le pre stop by (rule written_upto_stop(1))
  have "exit_flow e [start_frame..end_frame] =
          (case write_frame e k of Some m \<Rightarrow> Raise m | None \<Rightarrow> Break)"
    using assms(1) le pre stop by (rule written_upto_stop(2))
  then have fl: "\<forall>m. exit_flow e [start_frame..end_frame] \<noteq> Raise m"
    by (simp add: wk)
  have w: "writes (accept e start_frame end_frame) = [start_frame..k]"
    using accept_writes [OF lt assms(3)] wr by simp
  have none: "\<forall>f. k < f \<longrightarrow> WriteFrame f \<notin> set (accept e start_frame end_frame)"
  proof (intro allI impI)
    fix f assume "k < f"
    then have "f \<notin> set (writes (accept e start_frame end_frame))" unfolding w by simp
    then show "WriteFrame f \<notin> set (accept e start_frame end_frame)"
      by (simp add: set_writes)
  qed
  have n: "frames_written (accept e start_frame end_frame) = nat (k - start_frame + 1)"
    unfolding frames_written_def w by simp
  have lastk: "last [start_frame..k] = k"
    using assms(1) by (simp add: upto_rec2)
  from accept_no_raise [OF lt assms(3) fl]
  obtain evs ttl d where "accept e start_frame end_frame =
            [WriterOpen, ExportStarted start_frame end_frame] @ evs @
            [WriterClose, ExportFrame ttl start_frame end_frame
               (last (written e [start_frame..end_frame])) d,
             ExportEnded, TimelineClose, ClearAllCache]"
    and "elapsed_title ttl" "\<forall>ev\<in>set evs. loop_event ev" by blast
  then have "\<exists>evs ttl d. accept e start_frame end_frame =
             [WriterOpen, ExportStarted start_frame end_frame] @ evs @
             [WriterClose, ExportFrame ttl start_frame end_frame k d,
              ExportEnded, TimelineClose, ClearAllCache]
             \<and> elapsed_title ttl \<and> (\<forall>ev\<in>set evs. loop_event ev)"
    unfolding wr lastk by blast
  with w none n show ?thesis by blast
qed

text \<open>
  The scenario of the range 1 to 200 with the flag seen down after frame 51.
\<close>

theorem cancel_stops_after_current_frame_witness:
  "writes (accept (cancelled_at 51) 1 200) = [1..51]
   \<and> WriteFrame 52 \<notin> set (accept (cancelled_at 51) 1 200)
   \<and> frames_written (accept (cancelled_at 51) 1 200) = 51"
proof -
  have "writer_setup (cancelled_at 51) = None"
    and "\<forall>f. 1 \<le> f \<and> f \<le> 51 \<longrightarrow> write_frame (cancelled_at 51) f = None"
    and "\<forall>f. 1 \<le> f \<and> f < 51 \<longrightarrow> exporting_read (cancelled_at 51) f"
    and "\<not> exporting_read (cancelled_at 51) 51"
    by (simp_all add: cancelled_at_def run_through_def)
  with cancel_stops_after_current_frame [of 1 51 200 "cancelled_at 51"]
  show ?thesis by simp
qed


text \<open>
  Claim C4. For every run with \<open>start_frame < end_frame\<close> in which no write that is
  made raises (the run completes or is cancelled), exactly one progress event with
  an elapsed-time title is emitted; it comes after the loop and after the writer
  is closed, and its frame is the last frame written, whatever the throttling.
\<close>

theorem final_progress_event:
  assumes "start_frame < end_frame" and "writer_setup e = None"
    and "\<forall>f\<in>set (writes (accept e start_frame end_frame)). write_frame e f = None"
  shows "\<exists>evs ttl d. accept e start_frame end_frame =
            [WriterOpen, ExportStarted start_frame end_frame] @ evs @
            [WriterClose,
             ExportFrame ttl start_frame end_frame
               (last (writes (accept e start_frame end_frame))) d,
             ExportEnded, TimelineClose, ClearAllCache]
          \<and> elapsed_title ttl
          \<and> (\<forall>ev\<in>set evs. loop_event ev)
          \<and> length (filter final_event (accept e start_frame end_frame)) = 1"
proof -
  let ?tr = "accept e start_frame end_frame"
  have w: "writes ?tr = written e [start_frame..end_frame]"
    using assms(1,2) by (rule accept_writes)
  have fl: "\<forall>m. exit_flow e [start_frame..end_frame] \<noteq> Raise m"
  proof (intro allI notI)
    fix m assume "exit_flow e [start_frame..end_frame] = Raise m"
    from exit_flow_Raise_written [OF this] assms(3) show False unfolding w by auto
  qed
  from accept_no_raise [OF assms(1,2) fl]
  obtain evs ttl d where eq: "?tr =
            [WriterOpen, ExportStarted start_frame end_frame] @ evs @
            [WriterClose,
             ExportFrame ttl start_frame end_frame (last (written e [start_frame..end_frame])) d,
             ExportEnded, TimelineClose, ClearAllCache]"
    and el: "elapsed_title ttl" and le: "\<forall>ev\<in>set evs. loop_event ev" by blast
  have "filter final_event evs = []"
    using le loop_event_not_final by (simp add: filter_empty_conv)
  then have one: "length (filter final_event ?tr) = 1"
    unfolding eq using el by simp
  have eq': "?tr =
            [WriterOpen, ExportStarted start_frame end_frame] @ evs @
            [WriterClose,
             ExportFrame ttl start_frame end_frame (last (writes ?tr)) d,
             ExportEnded, TimelineClose, ClearAllCache]"
    using eq unfolding w .
  show ?thesis
    by (rule exI [of _ evs], rule exI [of _ ttl], rule exI [of _ d]) (intro conjI eq' el le one)
qed

text \<open>A cancelled run of the range 1 to 200 has its one final event.\<close>

theorem final_progress_event_witness:
  "(1::int) < 200 \<and> length (filter final_event (accept (cancelled_at 51) 1 200)) = 1"
proof -
  have "\<exists>evs ttl d. accept (cancelled_at 51) 1 200 =
            [WriterOpen, ExportStarted 1 200] @ evs @
            [WriterClose,
             ExportFrame ttl 1 200 (last (writes (accept (cancelled_at 51) 1 200))) d,
             ExportEnded, TimelineClose, ClearAllCache]
          \<and> elapsed_title ttl
          \<and> (\<forall>ev\<in>set evs. loop_event ev)
          \<and> length (filter final_event (accept (cancelled_at 51) 1 200)) = 1"
    by (rule final_progress_event) (simp_all add: cancelled_at_def run_through_def)
  then have "length (filter final_event (accept (cancelled_at 51) 1 200)) = 1"
    by blast
  then show ?thesis by simp
qed




text \<open>
  Claim C8. For \<open>current_frame > start_frame\<close> and \<open>now \<ge> start_time\<close>, the estimate
  of line 1056, with its subtractions the other way round, equals the rounding of
  elapsed time times frames remaining over frames done.
\<close>

theorem seconds_left_equals_spec_formula:
  assumes "start_frame < current_frame" and "start_time \<le> now"
  shows "seconds_left start_time now current_frame start_frame end_frame =
         seconds_remaining_spec start_time now current_frame start_frame end_frame"
proof -
  have "(start_time - now) * of_int (current_frame - end_frame)
        = (now - start_time) * of_int (end_frame - current_frame)"
    by (simp add: algebra_simps)
  then show ?thesis
    by (simp add: seconds_left_def seconds_remaining_spec_def Let_def)
qed

text \<open>Ten seconds for 50 of 200 frames leave 30 seconds.\<close>

theorem seconds_left_equals_spec_formula_witness:
  "(1::int) < 51 \<and> (0::real) \<le> 10
   \<and> seconds_left 0 10 51 1 201 = seconds_remaining_spec 0 10 51 1 201
   \<and> seconds_left 0 10 51 1 201 = 30"
proof -
  have "seconds_left 0 10 51 1 201 = seconds_remaining_spec 0 10 51 1 201"
    using seconds_left_equals_spec_formula [of 1 51 0 10 201] by simp
  moreover have "seconds_remaining_spec 0 10 51 1 201 = 30"
    by (simp add: seconds_remaining_spec_def py_round_def Let_def)
  ultimately show ?thesis by simp
qed


text \<open>
  Claim C5. At a display tick the digit count is computed from
  \<open>delta = fraction_done - last_displayed_fraction\<close>: for a positive \<open>delta\<close> it is
  \<open>\<lceil>-2 - log10 delta\<rceil>\<close> clamped to the interval from 1 to 5, otherwise it is 1; so
  it always lies between 1 and 5. The event of the tick carries this count.
\<close>

theorem digits_clamped:
  "(0 < delta \<longrightarrow> digits_after_decimalpoint delta = max 1 (min 5 \<lceil>- 2 - log 10 delta\<rceil>))
   \<and> (delta \<le> 0 \<longrightarrow> digits_after_decimalpoint delta = 1)
   \<and> 1 \<le> digits_after_decimalpoint delta \<and> digits_after_decimalpoint delta \<le> 5
   \<and> (end_frame \<noteq> start_frame \<longrightarrow>
        (\<exists>ttl s'. display_tick e start_frame end_frame st frame t s =
           ([ExportFrame ttl start_frame end_frame frame
               (digits_after_decimalpoint
                  (of_int (frame - start_frame) / of_int (end_frame - start_frame)
                   - last_displayed_exported_portion s)),
             ProcessEvents], s', Continue)))"
proof -
  have a: "0 < delta \<longrightarrow> digits_after_decimalpoint delta = max 1 (min 5 \<lceil>- 2 - log 10 delta\<rceil>)"
  proof
    assume pos: "0 < delta"
    define c where "c = \<lceil>- 2 - log 10 delta\<rceil>"
    have "digits_after_decimalpoint delta =
            (if 5 < (if c < 1 then 1 else c) then 5 else (if c < 1 then 1 else c))"
      unfolding digits_after_decimalpoint_def Let_def c_def using pos by (simp only: if_True)
    also have "\<dots> = max 1 (min 5 c)" by (simp add: max_def min_def)
    finally show "digits_after_decimalpoint delta = max 1 (min 5 \<lceil>- 2 - log 10 delta\<rceil>)"
      unfolding c_def .
  qed
  have b: "delta \<le> 0 \<longrightarrow> digits_after_decimalpoint delta = 1"
    by (simp add: digits_after_decimalpoint_def Let_def)
  from a b digits_bounds [of delta] display_tick_digits [of end_frame start_frame e st frame t s]
  show ?thesis by blast
qed

text \<open>A step of one frame in 2000 gives 2 digits; no progress gives 1.\<close>

theorem digits_clamped_witness:
  "(0::real) < 1 / 2000 \<and> digits_after_decimalpoint (1 / 2000) = 2
   \<and> (0::real) \<le> 0 \<and> digits_after_decimalpoint 0 = 1"
  using digits_clamped [of "1 / 2000" 2001 1 run_through 0 2 1 "initial_state run_through"]
    digits_clamped [of 0 2001 1 run_through 0 2 1 "initial_state run_through"]
  by (simp add: ceiling_log_2000)

text \<open>
  Claim C9. The division by \<open>end_frame - start_frame\<close> is guarded: the progress bar
  update never raises and shows \<open>"100%"\<close> for a single-frame range, and
  \<open>accept\<close> rejects equal bounds before the loop, so the division of line 1039
  only meets a non-zero divisor and no run with a working sink shows an error.
\<close>

theorem fraction_done_guarded:
  "(\<forall>msg. updateProgressBar digits start_frame end_frame current_frame \<noteq> Inl msg)
   \<and> updateProgressBar digits start_frame start_frame current_frame = Inr (Literal ''100%'')
   \<and> accept e start_frame start_frame = [InvalidRangeDialog]
   \<and> (start_frame \<noteq> end_frame \<longrightarrow>
        py_truediv (of_int (frame - start_frame)) (of_int (end_frame - start_frame))
          = Inr (of_int (frame - start_frame) / of_int (end_frame - start_frame)))
   \<and> (start_frame < end_frame \<longrightarrow> writer_setup e = None \<longrightarrow> (\<forall>f. write_frame e f = None) \<longrightarrow>
        (\<forall>msg. ErrorDialog msg \<notin> set (accept e start_frame end_frame)))"
proof -
  have a: "\<forall>msg. updateProgressBar digits start_frame end_frame current_frame \<noteq> Inl msg"
    by (simp add: updateProgressBar_def py_truediv_def)
  have b: "updateProgressBar digits start_frame start_frame current_frame = Inr (Literal ''100%'')"
    by (simp add: updateProgressBar_def)
  have c: "accept e start_frame start_frame = [InvalidRangeDialog]"
    by (simp add: accept_def)
  have d: "start_frame \<noteq> end_frame \<longrightarrow>
        py_truediv (of_int (frame - start_frame)) (of_int (end_frame - start_frame))
          = Inr (of_int (frame - start_frame) / of_int (end_frame - start_frame))"
    by (simp add: py_truediv_def)
  have f: "\<forall>msg. ErrorDialog msg \<notin> set (accept e start_frame end_frame)"
    if lt: "start_frame < end_frame" and ws: "writer_setup e = None"
      and ok: "\<forall>f. write_frame e f = None"
  proof -
    have fl: "\<forall>m. exit_flow e [start_frame..end_frame] \<noteq> Raise m"
    proof (intro allI notI)
      fix m assume "exit_flow e [start_frame..end_frame] = Raise m"
      from exit_flow_Raise_written [OF this] ok show False by simp
    qed
    from accept_no_raise [OF lt ws fl]
    obtain evs ttl d where eq: "accept e start_frame end_frame =
            [WriterOpen, ExportStarted start_frame end_frame] @ evs @
            [WriterClose, ExportFrame ttl start_frame end_frame
               (last (written e [start_frame..end_frame])) d,
             ExportEnded, TimelineClose, ClearAllCache]"
      and le: "\<forall>ev\<in>set evs. loop_event ev" by blast
    show ?thesis
    proof (intro allI notI)
      fix msg assume "ErrorDialog msg \<in> set (accept e start_frame end_frame)"
      then have "ErrorDialog msg \<in> set evs" unfolding eq by simp
      with le have "loop_event (ErrorDialog msg)" by blast
      then show False by simp
    qed
  qed
  from a b c d f show ?thesis by blast
qed

text \<open>The range 100 to 100 is rejected and displayed as 100%; the range 1 to 3 divides safely.\<close>

theorem fraction_done_guarded_witness:
  "updateProgressBar 1 100 100 100 = Inr (Literal ''100%'')
   \<and> accept run_through 100 100 = [InvalidRangeDialog]
   \<and> (1::int) \<noteq> 3 \<and> py_truediv (of_int (2 - 1)) (of_int (3 - 1)) = Inr (of_int (2 - 1) / of_int (3 - 1))
   \<and> (1::int) < 3 \<and> (\<forall>msg. ErrorDialog msg \<notin> set (accept run_through 1 3))"
proof -
  have "writer_setup run_through = None" "\<forall>f. write_frame run_through f = None"
    by (simp_all add: run_through_def)
  with fraction_done_guarded [of 1 1 3 100 run_through 2]
    fraction_done_guarded [of 1 100 100 100 run_through 2]
  show ?thesis by simp
qed


text \<open>
  Claim C7, as stated, fails. The \<open>if\<close>/\<open>elif\<close> chain of the handler has no
  \<open>else\<close> branch: a message that holds no marker records no kind at all, and the
  dialog shows the friendly form of the message, not the message. When the write
  of frame 5 raises \<open><OutOfBoundsFrame> frame 5\<close>, no metric is recorded and the
  dialog shows \<open>OutOfBoundsFrame\<close>.
\<close>

theorem unknown_failure_raw_detail_counterexample:
  "classify ''<OutOfBoundsFrame> frame 5'' = None
   \<and> filter is_metric (accept (failing_at 5 ''<OutOfBoundsFrame> frame 5'') 1 100) = []
   \<and> ErrorDialog ''OutOfBoundsFrame''
        \<in> set (accept (failing_at 5 ''<OutOfBoundsFrame> frame 5'') 1 100)
   \<and> ErrorDialog ''<OutOfBoundsFrame> frame 5''
        \<notin> set (accept (failing_at 5 ''<OutOfBoundsFrame> frame 5'') 1 100)"
proof -
  let ?m = "''<OutOfBoundsFrame> frame 5''"
  let ?tr = "accept (failing_at 5 ?m) 1 100"
  have "\<exists>evs. ?tr = [WriterOpen, ExportStarted 1 100] @ evs @ exception_handler ?m @
            [ExportEnded, TimelineClose, ClearAllCache]
          \<and> (\<forall>ev\<in>set evs. loop_event ev)
          \<and> writes evs = [1..5]"
    by (rule accept_write_failure) (simp_all add: failing_at_5_hyps)
  then obtain evs where eq: "?tr = [WriterOpen, ExportStarted 1 100] @ evs @
        [LogInfo ?m, ErrorDialog ''OutOfBoundsFrame'', ExportEnded, TimelineClose, ClearAllCache]"
    and le: "\<forall>ev\<in>set evs. loop_event ev"
    unfolding exception_handler_unrecognised by auto
  have nm: "filter is_metric evs = []"
    using le loop_event_not_metric by (simp add: filter_empty_conv)
  have nd: "ErrorDialog ?m \<notin> set evs"
    using le loop_event_kinds by blast
  have a: "filter is_metric ?tr = []" unfolding eq using nm by simp
  have b: "ErrorDialog ''OutOfBoundsFrame'' \<in> set ?tr" unfolding eq by simp
  have c: "ErrorDialog ?m \<notin> set ?tr" unfolding eq using nd by simp
  from unrecognised_example(1) a b c show ?thesis by blast
qed

text \<open>
  Claim C7, amended. When the write of frame \<open>k\<close> raises with message \<open>msg\<close>, the
  handler logs \<open>msg\<close> unchanged, then records the metric of the first kind, in the
  order of the chain, whose marker occurs in \<open>msg\<close>, and no metric when no marker
  occurs; the five markers are distinct and each, alone, selects its own kind.
  The dialog shows the friendly form of \<open>msg\<close>, which never holds \<open><\<close> and is
  \<open>msg\<close> itself exactly when \<open>msg\<close> holds neither \<open><\<close> nor \<open>"> "\<close>.
\<close>

theorem write_failure_classified:
  assumes "start_frame \<le> k" and "k \<le> end_frame" and "start_frame < end_frame"
    and "writer_setup e = None"
    and "\<forall>f. start_frame \<le> f \<and> f < k \<longrightarrow> write_frame e f = None \<and> exporting_read e f"
    and "write_frame e k = Some msg"
  shows "(\<exists>evs. accept e start_frame end_frame =
            [WriterOpen, ExportStarted start_frame end_frame] @ evs @
            LogInfo msg #
            (case classify msg of Some kind \<Rightarrow> [TrackMetricError kind] | None \<Rightarrow> []) @
            [ErrorDialog (friendly_error msg), ExportEnded, TimelineClose, ClearAllCache]
          \<and> (\<forall>ev\<in>set evs. loop_event ev))
       \<and> (\<forall>kind. classify msg = Some kind \<longrightarrow> sublist (marker kind) msg)
       \<and> (\<forall>kind kind'. classify msg = Some kind \<longrightarrow> sublist (marker kind') msg \<longrightarrow>
             chain_position kind \<le> chain_position kind')
       \<and> (classify msg = None \<longleftrightarrow> (\<forall>kind. \<not> sublist (marker kind) msg))
       \<and> (\<forall>kind. classify (marker kind) = Some kind)
       \<and> inj marker
       \<and> (friendly_error msg = msg \<longleftrightarrow> CHR ''<'' \<notin> set msg \<and> \<not> sublist ''> '' msg)
       \<and> CHR ''<'' \<notin> set (friendly_error msg)"
proof -
  from accept_write_failure [OF assms]
  obtain evs where eq: "accept e start_frame end_frame =
            [WriterOpen, ExportStarted start_frame end_frame] @ evs @ exception_handler msg @
            [ExportEnded, TimelineClose, ClearAllCache]"
    and le: "\<forall>ev\<in>set evs. loop_event ev" by blast
  have eq': "accept e start_frame end_frame =
            [WriterOpen, ExportStarted start_frame end_frame] @ evs @
            LogInfo msg #
            (case classify msg of Some kind \<Rightarrow> [TrackMetricError kind] | None \<Rightarrow> []) @
            [ErrorDialog (friendly_error msg), ExportEnded, TimelineClose, ClearAllCache]"
    unfolding eq exception_handler_def by simp
  have a: "\<exists>evs. accept e start_frame end_frame =
            [WriterOpen, ExportStarted start_frame end_frame] @ evs @
            LogInfo msg #
            (case classify msg of Some kind \<Rightarrow> [TrackMetricError kind] | None \<Rightarrow> []) @
            [ErrorDialog (friendly_error msg), ExportEnded, TimelineClose, ClearAllCache]
          \<and> (\<forall>ev\<in>set evs. loop_event ev)"
    by (rule exI [of _ evs]) (intro conjI eq' le)
  have b: "\<forall>kind. classify msg = Some kind \<longrightarrow> sublist (marker kind) msg"
    using classify_Some_marker by blast
  have b': "\<forall>kind kind'. classify msg = Some kind \<longrightarrow> sublist (marker kind') msg \<longrightarrow>
             chain_position kind \<le> chain_position kind'"
    using classify_first_marker by blast
  have c: "\<forall>kind. classify (marker kind) = Some kind"
    using classify_marker by blast
  show ?thesis
    by (intro conjI a b b' classify_None_iff c inj_marker friendly_error_id_iff
          friendly_error_no_lt)
qed

text \<open>
  A channel mismatch and an unrecognised failure, each raised at frame 5 of the
  range 1 to 100.
\<close>

theorem write_failure_classified_witness:
  "(\<exists>evs. accept (failing_at 5 ''InvalidChannels'') 1 100 =
            [WriterOpen, ExportStarted 1 100] @ evs @
            [LogInfo ''InvalidChannels'', TrackMetricError InvalidChannels,
             ErrorDialog ''InvalidChannels'', ExportEnded, TimelineClose, ClearAllCache]
          \<and> (\<forall>ev\<in>set evs. loop_event ev))
   \<and> (\<exists>evs. accept (failing_at 5 ''<OutOfBoundsFrame> frame 5'') 1 100 =
            [WriterOpen, ExportStarted 1 100] @ evs @
            [LogInfo ''<OutOfBoundsFrame> frame 5'',
             ErrorDialog ''OutOfBoundsFrame'', ExportEnded, TimelineClose, ClearAllCache]
          \<and> (\<forall>ev\<in>set evs. loop_event ev))"
proof -
  have c: "classify ''InvalidChannels'' = Some InvalidChannels"
    by (simp add: classify_def)
  have f: "friendly_error ''InvalidChannels'' = ''InvalidChannels''"
    by (simp add: friendly_error_def)
  from write_failure_classified [of 1 5 100 "failing_at 5 ''InvalidChannels''" "''InvalidChannels''"]
    failing_at_5_hyps [of "''InvalidChannels''"]
  have "\<exists>evs. accept (failing_at 5 ''InvalidChannels'') 1 100 =
            [WriterOpen, ExportStarted 1 100] @ evs @
            LogInfo ''InvalidChannels'' #
            (case classify ''InvalidChannels'' of Some kind \<Rightarrow> [TrackMetricError kind]
             | None \<Rightarrow> []) @
            [ErrorDialog (friendly_error ''InvalidChannels''), ExportEnded, TimelineClose,
             ClearAllCache]
          \<and> (\<forall>ev\<in>set evs. loop_event ev)"
    by simp
  then have one: "\<exists>evs. accept (failing_at 5 ''InvalidChannels'') 1 100 =
            [WriterOpen, ExportStarted 1 100] @ evs @
            [LogInfo ''InvalidChannels'', TrackMetricError InvalidChannels,
             ErrorDialog ''InvalidChannels'', ExportEnded, TimelineClose, ClearAllCache]
          \<and> (\<forall>ev\<in>set evs. loop_event ev)"
    unfolding c f by simp
  from write_failure_classified [of 1 5 100 "failing_at 5 ''<OutOfBoundsFrame> frame 5''"
      "''<OutOfBoundsFrame> frame 5''"]
    failing_at_5_hyps [of "''<OutOfBoundsFrame> frame 5''"]
  have "\<exists>evs. accept (failing_at 5 ''<OutOfBoundsFrame> frame 5'') 1 100 =
            [WriterOpen, ExportStarted 1 100] @ evs @
            LogInfo ''<OutOfBoundsFrame> frame 5'' #
            (case classify ''<OutOfBoundsFrame> frame 5'' of
               Some kind \<Rightarrow> [TrackMetricError kind] | None \<Rightarrow> []) @
            [ErrorDialog (friendly_error ''<OutOfBoundsFrame> frame 5''), ExportEnded,
             TimelineClose, ClearAllCache]
          \<and> (\<forall>ev\<in>set evs. loop_event ev)"
    by simp
  then have two: "\<exists>evs. accept (failing_at 5 ''<OutOfBoundsFrame> frame 5'') 1 100 =
            [WriterOpen, ExportStarted 1 100] @ evs @
            [LogInfo ''<OutOfBoundsFrame> frame 5'',
             ErrorDialog ''OutOfBoundsFrame'', ExportEnded, TimelineClose, ClearAllCache]
          \<and> (\<forall>ev\<in>set evs. loop_event ev)"
    unfolding unrecognised_example by simp
  from one two show ?thesis by (rule conjI)
qed



text \<open>
  Claim C2, as stated, fails: when the write of frame 5 of the range 1 to 100
  raises, the writer is never closed.
\<close>

theorem sink_closed_once_on_failure_counterexample:
  "\<not> (closes (accept (failing_at 5 ''InvalidChannels'') 1 100) = 1)"
proof -
  have "closes (accept (failing_at 5 ''InvalidChannels'') 1 100) = 0"
    by (rule accept_write_failure_closes [of 1 5 100 _ "''InvalidChannels''"])
       (simp_all add: failing_at_5_hyps)
  then show ?thesis by simp
qed

text \<open>
  Claim C2, amended. When the write of frame \<open>k\<close> raises, \<open>WriteFrame\<close> has been
  called for the frames up to \<open>k\<close> and the writer is not closed. What follows the
  loop is, in this order and once each: the log entry of the original message,
  the metric if a marker is found, the error dialog with the friendly form of
  the original message, the end-of-export signal, the closing of the timeline
  and the clearing of its cache. Nothing before the dialog closes, ends or
  clears anything, and no other dialog is shown.
\<close>

theorem sink_left_open_on_write_failure:
  assumes "start_frame \<le> k" and "k \<le> end_frame" and "start_frame < end_frame"
    and "writer_setup e = None"
    and "\<forall>f. start_frame \<le> f \<and> f < k \<longrightarrow> write_frame e f = None \<and> exporting_read e f"
    and "write_frame e k = Some msg"
  shows "closes (accept e start_frame end_frame) = 0
       \<and> writes (accept e start_frame end_frame) = [start_frame..k]
       \<and> (\<exists>evs. accept e start_frame end_frame =
             [WriterOpen, ExportStarted start_frame end_frame] @ evs @
             LogInfo msg #
             (case classify msg of Some kind \<Rightarrow> [TrackMetricError kind] | None \<Rightarrow> []) @
             [ErrorDialog (friendly_error msg), ExportEnded, TimelineClose, ClearAllCache]
           \<and> (\<forall>ev\<in>set evs. loop_event ev
                 \<and> ev \<noteq> WriterClose \<and> ev \<noteq> ExportEnded \<and> ev \<noteq> TimelineClose
                 \<and> ev \<noteq> ClearAllCache \<and> (\<forall>m. ev \<noteq> ErrorDialog m) \<and> (\<forall>m. ev \<noteq> LogInfo m)
                 \<and> (\<forall>kind. ev \<noteq> TrackMetricError kind)))
       \<and> count_list (accept e start_frame end_frame) (LogInfo msg) = 1
       \<and> count_list (accept e start_frame end_frame) (ErrorDialog (friendly_error msg)) = 1
       \<and> (\<forall>m. ErrorDialog m \<in> set (accept e start_frame end_frame) \<longrightarrow> m = friendly_error msg)
       \<and> count_list (accept e start_frame end_frame) ExportEnded = 1
       \<and> count_list (accept e start_frame end_frame) TimelineClose = 1
       \<and> count_list (accept e start_frame end_frame) ClearAllCache = 1"
proof -
  let ?tr = "accept e start_frame end_frame"
  let ?metric = "case classify msg of Some kind \<Rightarrow> [TrackMetricError kind] | None \<Rightarrow> []"
  have pre: "\<forall>f. start_frame \<le> f \<and> f < k \<longrightarrow> proceeds e f"
    using assms(5) by (simp add: proceeds_def)
  have stop: "\<not> proceeds e k" using assms(6) by (simp add: proceeds_def)
  have "written e [start_frame..end_frame] = [start_frame..k]"
    using assms(1,2) pre stop by (rule written_upto_stop(1))
  then have w: "writes ?tr = [start_frame..k]"
    using accept_writes [OF assms(3,4)] by simp
  have cl: "closes ?tr = 0" using assms by (rule accept_write_failure_closes)
  from accept_write_failure [OF assms]
  obtain evs where eq0: "?tr =
            [WriterOpen, ExportStarted start_frame end_frame] @ evs @ exception_handler msg @
            [ExportEnded, TimelineClose, ClearAllCache]"
    and le: "\<forall>ev\<in>set evs. loop_event ev" by blast
  have eq: "?tr =
            [WriterOpen, ExportStarted start_frame end_frame] @ evs @
            LogInfo msg # ?metric @
            [ErrorDialog (friendly_error msg), ExportEnded, TimelineClose, ClearAllCache]"
    unfolding eq0 exception_handler_def by simp
  have le': "\<forall>ev\<in>set evs. loop_event ev
                 \<and> ev \<noteq> WriterClose \<and> ev \<noteq> ExportEnded \<and> ev \<noteq> TimelineClose
                 \<and> ev \<noteq> ClearAllCache \<and> (\<forall>m. ev \<noteq> ErrorDialog m) \<and> (\<forall>m. ev \<noteq> LogInfo m)
                 \<and> (\<forall>kind. ev \<noteq> TrackMetricError kind)"
    using le loop_event_not_handler by blast
  have st: "\<exists>evs. ?tr =
             [WriterOpen, ExportStarted start_frame end_frame] @ evs @
             LogInfo msg # ?metric @
             [ErrorDialog (friendly_error msg), ExportEnded, TimelineClose, ClearAllCache]
           \<and> (\<forall>ev\<in>set evs. loop_event ev
                 \<and> ev \<noteq> WriterClose \<and> ev \<noteq> ExportEnded \<and> ev \<noteq> TimelineClose
                 \<and> ev \<noteq> ClearAllCache \<and> (\<forall>m. ev \<noteq> ErrorDialog m) \<and> (\<forall>m. ev \<noteq> LogInfo m)
                 \<and> (\<forall>kind. ev \<noteq> TrackMetricError kind))"
    by (rule exI [of _ evs]) (intro conjI eq le')
  note z = count_list_loop_events [OF le]
  have c1: "count_list ?tr (LogInfo msg) = 1"
    by (subst eq) (simp add: z split: option.splits)
  have c2: "count_list ?tr (ErrorDialog (friendly_error msg)) = 1"
    by (subst eq) (simp add: z split: option.splits)
  have c3: "count_list ?tr ExportEnded = 1"
    by (subst eq) (simp add: z split: option.splits)
  have c4: "count_list ?tr TimelineClose = 1"
    by (subst eq) (simp add: z split: option.splits)
  have c5: "count_list ?tr ClearAllCache = 1"
    by (subst eq) (simp add: z split: option.splits)
  have only: "\<forall>m. ErrorDialog m \<in> set ?tr \<longrightarrow> m = friendly_error msg"
  proof (intro allI impI)
    fix m assume "ErrorDialog m \<in> set ?tr"
    then have "ErrorDialog m \<in> set evs \<or> m = friendly_error msg"
      by (subst (asm) eq) (auto split: option.splits)
    with le' show "m = friendly_error msg" by blast
  qed
  show ?thesis by (intro conjI cl w st c1 c2 only c3 c4 c5)
qed

text \<open>The same scenario: no close, writes 1 to 5, one end signal, one close, one clear.\<close>

theorem sink_left_open_on_write_failure_witness:
  "closes (accept (failing_at 5 ''InvalidChannels'') 1 100) = 0
   \<and> writes (accept (failing_at 5 ''InvalidChannels'') 1 100) = [1..5]
   \<and> count_list (accept (failing_at 5 ''InvalidChannels'') 1 100) ExportEnded = 1
   \<and> count_list (accept (failing_at 5 ''InvalidChannels'') 1 100) TimelineClose = 1
   \<and> count_list (accept (failing_at 5 ''InvalidChannels'') 1 100) ClearAllCache = 1"
  using sink_left_open_on_write_failure [of 1 5 100 "failing_at 5 ''InvalidChannels''" "''InvalidChannels''"]
    failing_at_5_hyps [of "''InvalidChannels''"]
  by simp


text \<open>
  Claim C6, as stated, fails: in the range 1 to 2 every frame is a display tick,
  and the event after the loop repeats frame 2, so the frames of the progress
  events are 1, 2, 2.
\<close>

theorem progress_events_in_order_counterexample:
  "\<not> sorted_wrt (<) (progress_frames (accept run_through 1 2))"
  by (simp add: accept_run_through_1_2 progress_frames_Cons)


text \<open>
  Claim C6, amended. For every run with \<open>start_frame < end_frame\<close> whose writer is
  set up, the frames of the progress events never decrease and are strictly
  increasing up to the last event; when no write that is made raises, the last
  event exists and carries the last frame written, whatever the throttling.
\<close>

theorem progress_events_ordered:
  assumes "start_frame < end_frame" and "writer_setup e = None"
  shows "sorted_wrt (\<le>) (progress_frames (accept e start_frame end_frame))
       \<and> sorted_wrt (<) (butlast (progress_frames (accept e start_frame end_frame)))
       \<and> ((\<forall>f\<in>set (writes (accept e start_frame end_frame)). write_frame e f = None) \<longrightarrow>
            progress_frames (accept e start_frame end_frame) \<noteq> []
            \<and> last (progress_frames (accept e start_frame end_frame))
                = last (writes (accept e start_frame end_frame)))"
proof -
  let ?tr = "accept e start_frame end_frame"
  let ?w = "written e [start_frame..end_frame]"
  have w: "writes ?tr = ?w" using assms by (rule accept_writes)
  have sw: "sorted_wrt (<) ?w" using assms(1) by (rule written_upto_sorted(1))
  show ?thesis
  proof (cases rule: exit_flow_cases [of e "[start_frame..end_frame]"])
    case (raise m)
    from progress_frames_raise [OF assms raise]
    have sub: "subseq (progress_frames ?tr) ?w" .
    then have s1: "sorted_wrt (<) (progress_frames ?tr)" using sw by (rule sorted_wrt_subseq)
    then have a: "sorted_wrt (\<le>) (progress_frames ?tr)" by (rule strict_sorted_imp_sorted)
    have "subseq (butlast (progress_frames ?tr)) (progress_frames ?tr)"
      using prefixeq_butlast by (rule prefix_imp_subseq)
    then have b: "sorted_wrt (<) (butlast (progress_frames ?tr))"
      using s1 by (rule sorted_wrt_subseq)
    from exit_flow_Raise_written [OF raise]
    have "\<not> (\<forall>f\<in>set (writes ?tr). write_frame e f = None)" unfolding w by auto
    with a b show ?thesis by blast
  next
    case no_raise
    from progress_frames_no_raise [OF assms no_raise]
    obtain ticks where pf: "progress_frames ?tr = ticks @ [last ?w]"
      and sub: "subseq ticks ?w" by blast
    have st: "sorted_wrt (<) ticks" using sub sw by (rule sorted_wrt_subseq)
    have "\<forall>x\<in>set ticks. x \<le> last ?w"
    proof
      fix x assume "x \<in> set ticks"
      with subseq_subset [OF sub] have "x \<in> set ?w" by blast
      with sw show "x \<le> last ?w" by (rule sorted_wrt_less_le_last)
    qed
    with strict_sorted_imp_sorted [OF st]
    have a: "sorted_wrt (\<le>) (progress_frames ?tr)"
      unfolding pf by (simp add: sorted_wrt_append)
    have b: "sorted_wrt (<) (butlast (progress_frames ?tr))"
      unfolding pf using st by simp
    have c: "progress_frames ?tr \<noteq> [] \<and> last (progress_frames ?tr) = last (writes ?tr)"
      unfolding pf w by simp
    from a b c show ?thesis by blast
  qed
qed

text \<open>The run of the range 1 to 2: the frames 1, 2, 2, the last being the last frame written.\<close>

theorem progress_events_ordered_witness:
  "sorted_wrt (\<le>) (progress_frames (accept run_through 1 2))
   \<and> last (progress_frames (accept run_through 1 2)) = last (writes (accept run_through 1 2))
   \<and> progress_frames (accept run_through 1 2) = [1, 2, 2]"
proof -
  have "writer_setup run_through = None"
    and "\<forall>f\<in>set (writes (accept run_through 1 2)). write_frame run_through f = None"
    by (simp_all add: run_through_def)
  with progress_events_ordered [of 1 2 run_through]
  have "sorted_wrt (\<le>) (progress_frames (accept run_through 1 2))"
    and "last (progress_frames (accept run_through 1 2)) = last (writes (accept run_through 1 2))"
    by simp_all
  moreover have "progress_frames (accept run_through 1 2) = [1, 2, 2]"
    by (simp add: accept_run_through_1_2 progress_frames_Cons)
  ultimately show ?thesis by simp
qed

end
